theory Spec2Isabelle
  imports Main "HOL-Library.Word"
begin

section \<open>Data model of the page cache (main.go)\<close>

text \<open>
  The program is a caching proxy: a map from a search term (\<open>cacheGroup\<close>) to an entry
  holding page bodies and one deadline, a registry of channels on which callers wait for a
  page, and goroutines that fetch pages and hand them to the cache. All accesses to the
  cache run as closures on one goroutine (\<open>cache.run\<close>), one after the other, so every
  closure is a function from the state to the state.

  Go's \<open>int\<close> is modelled as a 64-bit word read in two's complement (the handler parses
  the page number with bit size 64). A \<open>time.Time\<close> is the number of nanoseconds since
  the zero Time, so the zero value of the type is \<open>0\<close>; a \<open>time.Duration\<close> is a number
  of nanoseconds. What \<open>time.Now()\<close> returns is a parameter \<open>now\<close> of the closure
  that reads the clock. A channel is its address; the channels made so far and the closed
  ones form the record \<open>chans\<close>. Log output is not modelled, and of the URL of a fetch
  only the offset is kept.
\<close>

type_synonym cacheGroup = string
type_synonym go_int = "64 word"
type_synonym bytes = "8 word list"
type_synonym time = int
type_synonym duration = int
type_synonym chan = nat

definition zero_time :: time where
  "zero_time = 0"

definition second :: duration where
  "second = 1000000000"

definition minute :: duration where
  "minute = 60 * second"

definition time_Add :: "time \<Rightarrow> duration \<Rightarrow> time" where
  "time_Add t d = t + d"

definition time_After :: "time \<Rightarrow> time \<Rightarrow> bool" where
  \<comment> \<open>\<open>t.After(u)\<close>\<close>
  "time_After t u = (u < t)"

record page =
  page_n :: go_int
  page_body :: bytes
  page_expire :: time
  page_cached :: bool

definition newPage :: "go_int \<Rightarrow> bytes \<Rightarrow> page" where
  "newPage n b = \<lparr>page_n = n, page_body = b, page_expire = zero_time, page_cached = False\<rparr>"

record cacheEntry =
  deadline :: time
  pages :: "go_int \<rightharpoonup> bytes"

definition newCacheEntry :: "time \<Rightarrow> duration \<Rightarrow> cacheEntry" where
  \<comment> \<open>\<open>now\<close> is the value of \<open>time.Now()\<close>\<close>
  "newCacheEntry now d = \<lparr>deadline = time_Add now d, pages = Map.empty\<rparr>"

definition invalid :: "cacheEntry \<Rightarrow> time \<Rightarrow> bool" where
  "invalid ce t = (\<not> time_After (deadline ce) t)"

definition getPage :: "cacheEntry \<Rightarrow> go_int \<Rightarrow> page option" where
  "getPage ce n =
     (case pages ce n of
        None \<Rightarrow> None
      | Some b \<Rightarrow> Some ((newPage n b)\<lparr>page_expire := deadline ce\<rparr>))"

definition addPage :: "cacheEntry \<Rightarrow> page \<Rightarrow> cacheEntry" where
  "addPage ce p = ce\<lparr>pages := (pages ce)(page_n p \<mapsto> page_body p)\<rparr>"

subsection \<open>Channels and the registry of waiters\<close>

datatype panic = CloseOfClosedChannel | NilDereference

record chans =
  ch_next :: chan
  ch_closed :: "chan set"

definition make_chan :: "chans \<Rightarrow> chans \<times> chan" where
  \<comment> \<open>\<open>make(chan struct{})\<close>: a channel no one holds yet\<close>
  "make_chan h = (h\<lparr>ch_next := ch_next h + 1\<rparr>, ch_next h)"

definition close_chan :: "chans \<Rightarrow> chan \<Rightarrow> panic + chans" where
  \<comment> \<open>\<open>close(ch)\<close> panics on a channel that is closed already\<close>
  "close_chan h ch =
     (if ch \<in> ch_closed h then Inl CloseOfClosedChannel
      else Inr (h\<lparr>ch_closed := insert ch (ch_closed h)\<rparr>))"

text \<open>The struct \<open>waiters\<close> has the one field \<open>waits\<close>; the model is that map.\<close>

type_synonym waiters = "cacheGroup \<rightharpoonup> (go_int \<rightharpoonup> chan)"

definition newWaiters :: waiters where
  "newWaiters = Map.empty"

definition waiters_wait :: "waiters \<Rightarrow> chans \<Rightarrow> cacheGroup \<Rightarrow> go_int \<Rightarrow> waiters \<times> chans \<times> chan" where
  "waiters_wait w h g n =
     (case w g of
        None \<Rightarrow>
          (let (h', ch) = make_chan h in (w(g \<mapsto> [n \<mapsto> ch]), h', ch))
      | Some m \<Rightarrow>
          (case m n of
             Some ch \<Rightarrow> (w, h, ch)
           | None \<Rightarrow> (let (h', ch) = make_chan h in (w(g \<mapsto> m(n \<mapsto> ch)), h', ch))))"

definition waiters_done :: "waiters \<Rightarrow> chans \<Rightarrow> cacheGroup \<Rightarrow> go_int \<Rightarrow> panic + waiters \<times> chans" where
  "waiters_done w h g n =
     (case w g of
        None \<Rightarrow> Inr (w, h)
      | Some m \<Rightarrow>
          (case m n of
             None \<Rightarrow> Inr (w, h)
           | Some ch \<Rightarrow>
               (case close_chan h ch of
                  Inl e \<Rightarrow> Inl e
                | Inr h' \<Rightarrow>
                    (let m' = m(n := None)
                     in if dom m' = {} then Inr (w(g := None), h')
                        else Inr (w(g \<mapsto> m'), h')))))"

subsection \<open>Fetching\<close>

record multifetch =
  mf_group :: cacheGroup
  mf_first :: go_int
  mf_pages :: go_int

definition newMultifetch :: "cacheGroup \<Rightarrow> go_int \<Rightarrow> go_int \<Rightarrow> multifetch" where
  "newMultifetch g n tot = \<lparr>mf_group = g, mf_first = n, mf_pages = tot\<rparr>"

definition rangePages :: "multifetch \<Rightarrow> go_int \<times> go_int" where
  "rangePages m = (0, mf_pages m)"

text \<open>
  A goroutine started by \<open>multifetch.fetch\<close>: the group and the page number it will pass
  to \<open>cache.add\<close>, and the offset it puts into the URL.
\<close>

record task =
  task_group :: cacheGroup
  task_page :: go_int
  task_offset :: go_int

record cache =
  entries :: "cacheGroup \<rightharpoonup> cacheEntry"
  waits :: waiters
  heap :: chans
  spawned :: "task list"

definition newCache :: cache where
  "newCache = \<lparr>entries = Map.empty, waits = newWaiters,
                heap = \<lparr>ch_next = 0, ch_closed = {}\<rparr>, spawned = []\<rparr>"

definition multifetch_fetch :: "multifetch \<Rightarrow> cache \<Rightarrow> go_int \<Rightarrow> cache" where
  "multifetch_fetch m c n =
     (let n' = mf_first m + n
      in c\<lparr>spawned := spawned c @
            [\<lparr>task_group = mf_group m, task_page = n', task_offset = n' * 10\<rparr>]\<rparr>)"

definition cache_wait :: "cache \<Rightarrow> cacheGroup \<Rightarrow> go_int \<Rightarrow> cache \<times> chan" where
  \<comment> \<open>\<open>c.waits.wait(group, n)\<close>\<close>
  "cache_wait c g n =
     (let (w, h, ch) = waiters_wait (waits c) (heap c) g n
      in (c\<lparr>waits := w, heap := h\<rparr>, ch))"

function request_loop :: "multifetch \<Rightarrow> cacheGroup \<Rightarrow> cache \<Rightarrow> go_int \<Rightarrow> go_int \<Rightarrow> cache" where
  "request_loop mf g c lo hi =
     (if lo <s hi
      then request_loop mf g (multifetch_fetch mf (fst (cache_wait c g lo)) lo) (lo + 1) hi
      else c)"
  by pat_completeness auto
termination
proof (relation "measure (\<lambda>(mf, g, c, lo, hi). nat (sint hi - sint lo))")
  show "wf (measure (\<lambda>(mf, g, c, lo, hi). nat (sint hi - sint lo)))"
    by simp
next
  fix mf :: multifetch and g :: cacheGroup and c :: cache and lo hi :: go_int
  assume less: "lo <s hi"
  have a: "sint lo < sint hi"
    using less by (simp add: word_sless_alt)
  have b: "sint hi < 2 ^ 63"
    using sint_lt [of hi] by simp
  have c: "- (2 ^ 63) \<le> sint lo"
    using sint_ge [of lo] by simp
  have "sint (lo + 1) = signed_take_bit 63 (sint lo + 1)"
    by (simp add: sint_word_ariths)
  also have "\<dots> = sint lo + 1"
    using a b c by (intro signed_take_bit_int_eq_self) auto
  finally have "sint (lo + 1) = sint lo + 1" .
  with a show "((mf, g, multifetch_fetch mf (fst (cache_wait c g lo)) lo, lo + 1, hi),
                (mf, g, c, lo, hi)) \<in> measure (\<lambda>(mf, g, c, lo, hi). nat (sint hi - sint lo))"
    by simp
qed

declare request_loop.simps [simp del]

definition cache_request :: "cache \<Rightarrow> cacheGroup \<Rightarrow> go_int \<Rightarrow> cache \<times> chan" where
  "cache_request c g n =
     (let (c1, wait) = cache_wait c g n;
          mf = newMultifetch g n 3;
          c2 = multifetch_fetch mf c1 n;
          (lo, hi) = rangePages mf
      in (request_loop mf g c2 lo hi, wait))"

subsection \<open>The closures run by \<open>cache.run\<close>\<close>

datatype fetch_error = GetError string | CannotFetch go_int fetch_error

definition cache_add ::
  "cache \<Rightarrow> time \<Rightarrow> cacheGroup \<Rightarrow> page \<Rightarrow> fetch_error option \<Rightarrow> panic + cache \<times> fetch_error option" where
  \<comment> \<open>the closure that \<open>cache.add\<close> sends; \<open>now\<close> is the clock when it runs\<close>
  "cache_add c now g p err =
     (let ce = (case entries c g of
                  None \<Rightarrow> newCacheEntry now (5 * minute)
                | Some ce \<Rightarrow> ce);
          c1 = c\<lparr>entries := (entries c)(g \<mapsto> addPage ce p)\<rparr>
      in case waiters_done (waits c1) (heap c1) g (page_n p) of
           Inl e \<Rightarrow> Inl e
         | Inr (w, h) \<Rightarrow> Inr (c1\<lparr>waits := w, heap := h\<rparr>, err))"

text \<open>
  The goroutine of \<open>multifetch.fetch\<close>, once \<open>m.get(url)\<close> has returned: \<open>r\<close> is
  what it returned, an error (with a nil body) or the body read.
\<close>

definition task_finish ::
  "cache \<Rightarrow> time \<Rightarrow> task \<Rightarrow> string + bytes \<Rightarrow> panic + cache \<times> fetch_error option" where
  "task_finish c now t r =
     (let (body, err) = (case r of
                           Inl e \<Rightarrow> ([], Some (CannotFetch (task_offset t) (GetError e)))
                         | Inr b \<Rightarrow> (b, None))
      in cache_add c now (task_group t) (newPage (task_page t) body) err)"

text \<open>
  The closure of \<open>cache.gc\<close>. Go visits the keys of a map in an order it does not fix:
  \<open>ks\<close> is the order in which the \<open>range\<close> statement visits the keys of \<open>c.entries\<close>.
\<close>

definition gc_sweep :: "cacheGroup list \<Rightarrow> cache \<Rightarrow> time \<Rightarrow> cache" where
  "gc_sweep ks c now =
     (let purge = filter (\<lambda>g. case entries c g of
                                  None \<Rightarrow> False
                                | Some entry \<Rightarrow> invalid entry now) ks
      in if length purge > 0
         then c\<lparr>entries := fold (\<lambda>g m. m(g := None)) purge (entries c)\<rparr>
         else c)"

text \<open>
  The closure of \<open>cache.get\<close>: it leaves the page found in \<open>page\<close> or the channel to wait
  on in \<open>wait\<close>. \<open>clock\<close> is the value of \<open>time.Now()\<close>, which the closure reads only
  when the group has no entry; otherwise \<open>now\<close> keeps the zero value of its type.
\<close>

definition get_query ::
  "cache \<Rightarrow> time \<Rightarrow> cacheGroup \<Rightarrow> go_int \<Rightarrow> cache \<times> page option \<times> chan option" where
  "get_query c clock g n =
     (case entries c g of
        None \<Rightarrow> (let now = clock; (c', w) = cache_request c g n in (c', None, Some w))
      | Some ce \<Rightarrow>
          (let now = zero_time
           in if invalid ce now
              then (let (c', w) = cache_request c g n in (c', None, Some w))
              else (case getPage ce n of
                      None \<Rightarrow> (let (c', w) = cache_request c g n in (c', None, Some w))
                    | Some p \<Rightarrow> (c, Some p, None))))"

subsection \<open>The caller's side of \<open>cache.get\<close>\<close>

text \<open>
  What the goroutine of \<open>cache.run\<close> runs while a caller of \<open>get\<close> is blocked on its
  channel: closures sent by finished fetches, by the sweeper and by other callers of
  \<open>get\<close>, each with the clock at the moment it runs. An error returned by a closure is
  logged by \<open>run\<close> and changes nothing.
\<close>

datatype event =
    Add cacheGroup page "fetch_error option"
  | Finish task "string + bytes"
  | Sweep "cacheGroup list"
  | Query cacheGroup go_int

fun run_event :: "cache \<Rightarrow> time \<times> event \<Rightarrow> panic + cache" where
  "run_event c (now, Add g p err) = map_sum id fst (cache_add c now g p err)"
| "run_event c (now, Finish t r) = map_sum id fst (task_finish c now t r)"
| "run_event c (now, Sweep ks) = Inr (gc_sweep ks c now)"
| "run_event c (now, Query g n) = Inr (fst (get_query c now g n))"

fun run_events :: "cache \<Rightarrow> (time \<times> event) list \<Rightarrow> panic + cache" where
  "run_events c [] = Inr c"
| "run_events c (e # es) =
     (case run_event c e of
        Inl p \<Rightarrow> Inl p
      | Inr c' \<Rightarrow> run_events c' es)"

text \<open>
  The loop of \<open>cache.get\<close> has no bound. Its model takes a schedule: for each turn of the
  loop the clock when the caller's closure runs, and the events that run while the caller
  waits on the channel it got. The caller goes on when that channel is closed by then;
  \<open>None\<close> is a caller that has not returned when the schedule ends.
\<close>

type_synonym schedule = "(time \<times> (time \<times> event) list) list"

fun get_loop ::
  "bool \<Rightarrow> cache \<Rightarrow> cacheGroup \<Rightarrow> go_int \<Rightarrow> schedule \<Rightarrow> (panic + cache \<times> page) option" where
  "get_loop cached c g n [] = None"
| "get_loop cached c g n ((clock, evs) # rest) =
     (case get_query c clock g n of
        (c', pg, None) \<Rightarrow>
          (case pg of
             None \<Rightarrow> Some (Inl NilDereference)
           | Some p \<Rightarrow> Some (Inr (c', p\<lparr>page_cached := cached\<rparr>)))
      | (c', pg, Some wait) \<Rightarrow>
          (case run_events c' evs of
             Inl e \<Rightarrow> Some (Inl e)
           | Inr c'' \<Rightarrow>
               if wait \<in> ch_closed (heap c'') then get_loop False c'' g n rest else None))"

definition cache_get ::
  "cache \<Rightarrow> cacheGroup \<Rightarrow> go_int \<Rightarrow> schedule \<Rightarrow> (panic + cache \<times> page) option" where
  "cache_get c g n sched = get_loop True c g n sched"

subsection \<open>The HTTP handler\<close>

text \<open>
  \<open>strconv.ParseInt(s, 10, 64)\<close> of Go's standard library, after its documentation: an
  optional sign, then one or more decimal digits; \<open>ErrSyntax\<close> for anything else, and
  \<open>ErrRange\<close> for a value that does not fit 64 bits in two's complement.
\<close>

datatype num_error = ErrSyntax | ErrRange

definition is_digit :: "char \<Rightarrow> bool" where
  "is_digit ch = (48 \<le> (of_char ch :: int) \<and> (of_char ch :: int) \<le> 57)"

definition digits_value :: "string \<Rightarrow> int" where
  "digits_value ds = foldl (\<lambda>a ch. 10 * a + (of_char ch - 48)) 0 ds"

definition ParseInt :: "string \<Rightarrow> num_error + go_int" where
  "ParseInt s =
     (case s of
        [] \<Rightarrow> Inl ErrSyntax
      | ch # r \<Rightarrow>
          (let neg = (ch = CHR ''-'');
               ds = (if ch = CHR ''+'' \<or> ch = CHR ''-'' then r else s)
           in if ds = [] \<or> \<not> list_all is_digit ds then Inl ErrSyntax
              else (let un = digits_value ds
                    in if \<not> neg \<and> un \<ge> 2 ^ 63 then Inl ErrRange
                       else if neg \<and> un > 2 ^ 63 then Inl ErrRange
                       else Inr (if neg then - word_of_int un else word_of_int un))))"

text \<open>
  The answer of the handler: \<open>http.NotFound\<close>, \<open>http.Error\<close> with status 500, or the
  page with its two headers (\<open>X-From-Cache\<close> is set when \<open>page.cached\<close> holds,
  \<open>X-Cached-Until\<close> carries \<open>page.expire\<close>).
\<close>

datatype response =
    NotFound
  | ServerError num_error
  | Served bool time bytes

definition mux_var :: "(string \<rightharpoonup> string) \<Rightarrow> string \<Rightarrow> string" where
  \<comment> \<open>reading a Go map of strings: the empty string for a key that is not there\<close>
  "mux_var vars k = (case vars k of None \<Rightarrow> [] | Some v \<Rightarrow> v)"

definition origin_handle ::
  "(string \<rightharpoonup> string) \<Rightarrow> cache \<Rightarrow> schedule \<Rightarrow> (panic + cache \<times> response) option" where
  "origin_handle vars c sched =
     (let q = mux_var vars ''q''
      in if q = [] then Some (Inr (c, NotFound))
         else (case (if mux_var vars ''n'' \<noteq> [] then ParseInt (mux_var vars ''n'') else Inr 0) of
                 Inl err \<Rightarrow> Some (Inr (c, ServerError err))
               | Inr n \<Rightarrow>
                   (case cache_get c q n sched of
                      None \<Rightarrow> None
                    | Some (Inl e) \<Rightarrow> Some (Inl e)
                    | Some (Inr (c', p)) \<Rightarrow>
                        Some (Inr (c', Served (page_cached p) (page_expire p) (page_body p))))))"

subsection \<open>Observations on a state\<close>

definition gate :: "waiters \<Rightarrow> cacheGroup \<Rightarrow> go_int \<Rightarrow> chan option" where
  \<comment> \<open>the read \<open>w.waits[group][n]\<close>: the channel registered for a group and a page\<close>
  "gate w g n = (case w g of None \<Rightarrow> None | Some m \<Rightarrow> m n)"

definition spawned_for :: "cacheGroup \<Rightarrow> go_int \<Rightarrow> cache \<Rightarrow> task list" where
  \<comment> \<open>the goroutines started so far that fetch page \<open>n\<close> of group \<open>g\<close>\<close>
  "spawned_for g n c = filter (\<lambda>t. task_group t = g \<and> task_page t = n) (spawned c)"

definition entry_or_new :: "cache \<Rightarrow> time \<Rightarrow> cacheGroup \<Rightarrow> cacheEntry" where
  \<comment> \<open>the entry that \<open>add\<close> puts the page into: the one of the group, or a new one\<close>
  "entry_or_new c now g =
     (case entries c g of None \<Rightarrow> newCacheEntry now (5 * minute) | Some ce \<Rightarrow> ce)"

definition is_hit :: "cache \<Rightarrow> cacheGroup \<Rightarrow> go_int \<Rightarrow> bool" where
  \<comment> \<open>the closure of \<open>get\<close> finds the page: neither of its two requests is reached\<close>
  "is_hit c g n =
     (case entries c g of
        None \<Rightarrow> False
      | Some ce \<Rightarrow> \<not> invalid ce zero_time \<and> pages ce n \<noteq> None)"

definition mk_task :: "cacheGroup \<Rightarrow> go_int \<Rightarrow> task" where
  \<comment> \<open>the goroutine that \<open>fetch\<close> starts for page \<open>k\<close>\<close>
  "mk_task g k = \<lparr>task_group = g, task_page = k, task_offset = k * 10\<rparr>"

text \<open>
  The channels of a state are in order when every registered channel has been made and is
  still open, no channel is registered for two pairs, and every closed channel has been
  made. All states that the program reaches are so (lemmas \<open>chans_ok_newCache\<close> and
  \<open>chans_ok_run_event\<close>).
\<close>

definition chans_ok :: "cache \<Rightarrow> bool" where
  "chans_ok c =
     ((\<forall>g n ch. gate (waits c) g n = Some ch \<longrightarrow>
          ch < ch_next (heap c) \<and> ch \<notin> ch_closed (heap c))
      \<and> (\<forall>g n g' n' ch. gate (waits c) g n = Some ch \<longrightarrow> gate (waits c) g' n' = Some ch \<longrightarrow>
            g = g' \<and> n = n')
      \<and> (\<forall>ch \<in> ch_closed (heap c). ch < ch_next (heap c)))"

text \<open>
  A run of the program seen from outside: calls of \<open>get\<close> that return one after the
  other, and closures that run in between. The result is the final state and the pages
  returned; \<open>None\<close> when a call does not return or the program panics.
\<close>

datatype action = Call cacheGroup go_int schedule | Background time event

fun session :: "cache \<Rightarrow> action list \<Rightarrow> (cache \<times> page list) option" where
  "session c [] = Some (c, [])"
| "session c (Call g n sched # acts) =
     (case cache_get c g n sched of
        Some (Inr (c', p)) \<Rightarrow> map_option (apsnd ((#) p)) (session c' acts)
      | _ \<Rightarrow> None)"
| "session c (Background now ev # acts) =
     (case run_event c (now, ev) of
        Inr c' \<Rightarrow> session c' acts
      | Inl e \<Rightarrow> None)"

section \<open>Properties\<close>

subsection \<open>The registry of waiters\<close>

lemma gate_wait_old:
  "gate w g n = Some ch \<Longrightarrow> waiters_wait w h g n = (w, h, ch)"
  by (auto simp: gate_def waiters_wait_def split: option.splits)

lemma gate_wait_new:
  assumes "gate w g n = None"
  shows "\<exists>w'. waiters_wait w h g n = (w', h\<lparr>ch_next := ch_next h + 1\<rparr>, ch_next h)
           \<and> gate w' g n = Some (ch_next h)
           \<and> (\<forall>g' n'. (g', n') \<noteq> (g, n) \<longrightarrow> gate w' g' n' = gate w g' n')"
  using assms
  by (auto simp: gate_def waiters_wait_def make_chan_def split: option.splits)

lemma gate_done_none:
  "gate w g n = None \<Longrightarrow> waiters_done w h g n = Inr (w, h)"
  by (auto simp: gate_def waiters_done_def split: option.splits)

lemma upd_empty_other: "m(n := None) = Map.empty \<Longrightarrow> n' \<noteq> n \<Longrightarrow> m n' = None"
  by (metis fun_upd_other)

lemma gate_done_some:
  assumes "gate w g n = Some ch" and "ch \<notin> ch_closed h"
  shows "\<exists>w'. waiters_done w h g n = Inr (w', h\<lparr>ch_closed := insert ch (ch_closed h)\<rparr>)
           \<and> gate w' g n = None
           \<and> (\<forall>g' n'. (g', n') \<noteq> (g, n) \<longrightarrow> gate w' g' n' = gate w g' n')"
  using assms
  by (auto simp: gate_def waiters_done_def close_chan_def Let_def upd_empty_other
           split: option.splits)

lemma gate_done_closed:
  assumes "gate w g n = Some ch" and "ch \<in> ch_closed h"
  shows "waiters_done w h g n = Inl CloseOfClosedChannel"
  using assms
  by (auto simp: gate_def waiters_done_def close_chan_def split: option.splits)

text \<open>
  Claim C5. The registry holds at most one channel for a group and a page: it is a map, and
  \<open>wait\<close> on a pair that has a channel returns that channel and changes nothing. On a
  pair without a channel \<open>wait\<close> makes a new one, registers it and returns it, and leaves
  every other pair as it was. \<open>done\<close> closes the registered channel and removes the
  registration, leaving every other pair as it was; on a pair without a channel it changes
  nothing.
\<close>

theorem waiters_one_gate_per_pair:
  "(gate w g n = Some ch \<longrightarrow> waiters_wait w h g n = (w, h, ch))
   \<and> (gate w g n = None \<longrightarrow>
        (\<exists>w'. waiters_wait w h g n = (w', h\<lparr>ch_next := ch_next h + 1\<rparr>, ch_next h)
           \<and> gate w' g n = Some (ch_next h)
           \<and> (\<forall>g' n'. (g', n') \<noteq> (g, n) \<longrightarrow> gate w' g' n' = gate w g' n')))
   \<and> (gate w g n = Some ch \<and> ch \<notin> ch_closed h \<longrightarrow>
        (\<exists>w'. waiters_done w h g n = Inr (w', h\<lparr>ch_closed := insert ch (ch_closed h)\<rparr>)
           \<and> gate w' g n = None
           \<and> (\<forall>g' n'. (g', n') \<noteq> (g, n) \<longrightarrow> gate w' g' n' = gate w g' n')))
   \<and> (gate w g n = None \<longrightarrow> waiters_done w h g n = Inr (w, h))"
  using gate_wait_old [of w g n ch h] gate_wait_new [of w g n h]
    gate_done_some [of w g n ch h] gate_done_none [of w g n h]
  by blast

theorem waiters_one_gate_per_pair_witness:
  "gate newWaiters ''abc'' 0 = None
   \<and> waiters_wait newWaiters \<lparr>ch_next = 0, ch_closed = {}\<rparr> ''abc'' 0
        = ([''abc'' \<mapsto> [0 \<mapsto> 0]], \<lparr>ch_next = 1, ch_closed = {}\<rparr>, 0)
   \<and> waiters_done newWaiters \<lparr>ch_next = 0, ch_closed = {}\<rparr> ''abc'' 0
        = Inr (newWaiters, \<lparr>ch_next = 0, ch_closed = {}\<rparr>)
   \<and> gate [''abc'' \<mapsto> [0 \<mapsto> 0]] ''abc'' 0 = Some 0
   \<and> (0::nat) \<notin> ch_closed \<lparr>ch_next = 1, ch_closed = {}\<rparr>
   \<and> waiters_wait [''abc'' \<mapsto> [0 \<mapsto> 0]] \<lparr>ch_next = 1, ch_closed = {}\<rparr> ''abc'' 0
        = ([''abc'' \<mapsto> [0 \<mapsto> 0]], \<lparr>ch_next = 1, ch_closed = {}\<rparr>, 0)
   \<and> waiters_done [''abc'' \<mapsto> [0 \<mapsto> 0]] \<lparr>ch_next = 1, ch_closed = {}\<rparr> ''abc'' 0
        = Inr (Map.empty, \<lparr>ch_next = 1, ch_closed = {0}\<rparr>)"
proof -
  have none: "gate newWaiters ''abc'' 0 = None"
    by (simp add: gate_def newWaiters_def)
  have some: "gate [''abc'' \<mapsto> [0 \<mapsto> 0]] ''abc'' 0 = Some 0"
    by (simp add: gate_def)
  have op: "(0::nat) \<notin> ch_closed \<lparr>ch_next = 1, ch_closed = {}\<rparr>"
    by simp
  note a = waiters_one_gate_per_pair
    [of newWaiters "''abc''" 0 0 "\<lparr>ch_next = 0, ch_closed = {}\<rparr>"]
  note b = waiters_one_gate_per_pair
    [of "[''abc'' \<mapsto> [0 \<mapsto> 0]]" "''abc''" 0 0 "\<lparr>ch_next = 1, ch_closed = {}\<rparr>"]
  have w1: "waiters_done newWaiters \<lparr>ch_next = 0, ch_closed = {}\<rparr> ''abc'' 0
        = Inr (newWaiters, \<lparr>ch_next = 0, ch_closed = {}\<rparr>)"
    using a none by blast
  have w2: "waiters_wait [''abc'' \<mapsto> [0 \<mapsto> 0]] \<lparr>ch_next = 1, ch_closed = {}\<rparr> ''abc'' 0
        = ([''abc'' \<mapsto> [0 \<mapsto> 0]], \<lparr>ch_next = 1, ch_closed = {}\<rparr>, 0)"
    using b some by blast
  have w3: "waiters_wait newWaiters \<lparr>ch_next = 0, ch_closed = {}\<rparr> ''abc'' 0
        = ([''abc'' \<mapsto> [0 \<mapsto> 0]], \<lparr>ch_next = 1, ch_closed = {}\<rparr>, 0)"
    by (simp add: waiters_wait_def newWaiters_def make_chan_def)
  have w4: "waiters_done [''abc'' \<mapsto> [0 \<mapsto> 0]] \<lparr>ch_next = 1, ch_closed = {}\<rparr> ''abc'' 0
        = Inr (Map.empty, \<lparr>ch_next = 1, ch_closed = {0}\<rparr>)"
    by (simp add: waiters_done_def close_chan_def)
  show ?thesis using none some op w1 w2 w3 w4 by blast
qed



subsection \<open>What \<open>wait\<close>, \<open>fetch\<close> and \<open>request\<close> change\<close>

lemma cache_wait_chan:
  "snd (cache_wait c g n) =
     (case gate (waits c) g n of Some ch \<Rightarrow> ch | None \<Rightarrow> ch_next (heap c))"
  by (auto simp: cache_wait_def gate_def waiters_wait_def make_chan_def split: option.splits)

lemma cache_wait_gate:
  "gate (waits (fst (cache_wait c g n))) g' k =
     (if g' = g \<and> k = n then Some (snd (cache_wait c g n)) else gate (waits c) g' k)"
  by (auto simp: cache_wait_def gate_def waiters_wait_def make_chan_def split: option.splits)

lemma cache_wait_frame:
  "entries (fst (cache_wait c g n)) = entries c"
  "spawned (fst (cache_wait c g n)) = spawned c"
  "ch_closed (heap (fst (cache_wait c g n))) = ch_closed (heap c)"
  by (auto simp: cache_wait_def waiters_wait_def make_chan_def split: option.splits)

lemma cache_wait_next:
  "ch_next (heap (fst (cache_wait c g n))) =
     (case gate (waits c) g n of Some ch \<Rightarrow> ch_next (heap c) | None \<Rightarrow> ch_next (heap c) + 1)"
  by (auto simp: cache_wait_def gate_def waiters_wait_def make_chan_def split: option.splits)

lemma fetch_frame:
  "entries (multifetch_fetch m c n) = entries c"
  "waits (multifetch_fetch m c n) = waits c"
  "heap (multifetch_fetch m c n) = heap c"
  "spawned (multifetch_fetch m c n) = spawned c @ [mk_task (mf_group m) (mf_first m + n)]"
  by (simp_all add: multifetch_fetch_def mk_task_def Let_def)

lemma cache_wait_fetch:
  "cache_wait (multifetch_fetch m c k) g n =
     (multifetch_fetch m (fst (cache_wait c g n)) k, snd (cache_wait c g n))"
  by (simp add: cache_wait_def multifetch_fetch_def Let_def split_beta)

lemma request_loop_0_3:
  "request_loop mf g c 0 3 =
     multifetch_fetch mf (fst (cache_wait
       (multifetch_fetch mf (fst (cache_wait
         (multifetch_fetch mf (fst (cache_wait c g 0)) 0) g 1)) 1) g 2)) 2"
proof -
  have a: "(0::go_int) <s 3" "(1::go_int) <s 3" "(2::go_int) <s 3" "\<not> (3::go_int) <s 3"
    by (simp_all add: word_sless_alt)
  have s: "(0::go_int) + 1 = 1" "(1::go_int) + 1 = 2" "(2::go_int) + 1 = 3"
    by simp_all
  show ?thesis
    apply (subst request_loop.simps, simp only: a if_True s)
    apply (subst request_loop.simps, simp only: a if_True s)
    apply (subst request_loop.simps, simp only: a if_True s)
    apply (subst request_loop.simps, simp only: a if_False)
    done
qed

lemma cache_request_unfold:
  "cache_request c g n =
     (let mf = newMultifetch g n 3;
          c2 = multifetch_fetch mf (fst (cache_wait c g n)) n
      in (multifetch_fetch mf (fst (cache_wait
            (multifetch_fetch mf (fst (cache_wait
              (multifetch_fetch mf (fst (cache_wait c2 g 0)) 0) g 1)) 1) g 2)) 2,
          snd (cache_wait c g n)))"
  by (simp add: cache_request_def rangePages_def newMultifetch_def request_loop_0_3
        Let_def split_beta)

lemma cache_request_chan:
  "snd (cache_request c g n) = snd (cache_wait c g n)"
  by (simp add: cache_request_unfold Let_def)

lemma cache_request_entries:
  "entries (fst (cache_request c g n)) = entries c"
  by (simp add: cache_request_unfold Let_def fetch_frame cache_wait_frame)

lemma cache_request_closed:
  "ch_closed (heap (fst (cache_request c g n))) = ch_closed (heap c)"
  by (simp add: cache_request_unfold Let_def fetch_frame cache_wait_frame)

lemma cache_request_spawned:
  "spawned (fst (cache_request c g n)) =
     spawned c @ [mk_task g (n + n), mk_task g n, mk_task g (n + 1), mk_task g (n + 2)]"
  by (simp add: cache_request_unfold Let_def fetch_frame cache_wait_frame newMultifetch_def)

lemma cache_request_gate:
  "gate (waits (fst (cache_request c g n))) g' k =
     (if g' = g \<and> k = 2 then Some (snd (cache_wait
          (fst (cache_wait (fst (cache_wait (fst (cache_wait c g n)) g 0)) g 1)) g 2))
      else if g' = g \<and> k = 1 then Some (snd (cache_wait
          (fst (cache_wait (fst (cache_wait c g n)) g 0)) g 1))
      else if g' = g \<and> k = 0 then Some (snd (cache_wait (fst (cache_wait c g n)) g 0))
      else if g' = g \<and> k = n then Some (snd (cache_wait c g n))
      else gate (waits c) g' k)"
  by (simp add: cache_request_unfold Let_def fetch_frame cache_wait_fetch cache_wait_gate)

lemma cache_wait_keeps:
  "gate (waits c) g' k = Some ch \<Longrightarrow> gate (waits (fst (cache_wait c g n))) g' k = Some ch"
  by (auto simp: cache_wait_gate cache_wait_chan)

lemma cache_request_keeps:
  "gate (waits c) g' k = Some ch \<Longrightarrow> gate (waits (fst (cache_request c g n))) g' k = Some ch"
  by (simp add: cache_request_unfold Let_def fetch_frame cache_wait_fetch cache_wait_keeps)

lemma cache_request_own_gate:
  "gate (waits (fst (cache_request c g n))) g n = Some (snd (cache_request c g n))"
proof -
  have "gate (waits (fst (cache_wait c g n))) g n = Some (snd (cache_wait c g n))"
    by (simp add: cache_wait_gate)
  then show ?thesis
    by (simp add: cache_request_unfold Let_def fetch_frame cache_wait_fetch cache_wait_keeps)
qed

lemma cache_request_dom:
  "gate (waits (fst (cache_request c g n))) g' k \<noteq> None \<longleftrightarrow>
     gate (waits c) g' k \<noteq> None \<or> (g' = g \<and> k \<in> {n, 0, 1, 2})"
  by (auto simp: cache_request_gate)

lemma cache_wait_next_le:
  "ch_next (heap c) \<le> ch_next (heap (fst (cache_wait c g n)))"
  by (simp add: cache_wait_next split: option.splits)

lemma cache_wait_ok:
  "chans_ok c \<Longrightarrow> chans_ok (fst (cache_wait c g n))"
  unfolding chans_ok_def
  by (auto simp: cache_wait_gate cache_wait_chan cache_wait_frame cache_wait_next
           split: option.splits if_splits intro: less_SucI)

lemma fetch_ok:
  "chans_ok c \<Longrightarrow> chans_ok (multifetch_fetch m c n)"
  by (simp add: chans_ok_def fetch_frame)

lemma cache_request_ok:
  "chans_ok c \<Longrightarrow> chans_ok (fst (cache_request c g n))"
  by (simp add: cache_request_unfold Let_def cache_wait_ok fetch_ok)


subsection \<open>What the closures of the sweeper and of \<open>add\<close> change\<close>

lemma fold_delete:
  "fold (\<lambda>g m. m(g := None)) xs m k = (if k \<in> set xs then None else m k)"
  by (induction xs arbitrary: m) auto

lemma gc_sweep_entries:
  "entries (gc_sweep ks c now) g =
     (case entries c g of
        None \<Rightarrow> None
      | Some e \<Rightarrow> if g \<in> set ks \<and> deadline e \<le> now then None else Some e)"
  by (auto simp: gc_sweep_def Let_def fold_delete invalid_def time_After_def filter_empty_conv
           split: option.splits)

lemma gc_sweep_frame:
  "waits (gc_sweep ks c now) = waits c"
  "heap (gc_sweep ks c now) = heap c"
  "spawned (gc_sweep ks c now) = spawned c"
  by (simp_all add: gc_sweep_def Let_def)

lemma gc_sweep_ok: "chans_ok c \<Longrightarrow> chans_ok (gc_sweep ks c now)"
  by (simp add: chans_ok_def gc_sweep_frame)



lemma cache_add_no_gate:
  assumes "gate (waits c) g (page_n p) = None"
  shows "cache_add c now g p err =
           Inr (c\<lparr>entries := (entries c)(g \<mapsto> addPage (entry_or_new c now g) p)\<rparr>, err)"
  using gate_done_none [OF assms, of "heap c"]
  by (simp add: cache_add_def entry_or_new_def Let_def)

lemma cache_add_gate:
  assumes "gate (waits c) g (page_n p) = Some ch" and "ch \<notin> ch_closed (heap c)"
  shows "\<exists>w'. cache_add c now g p err =
           Inr (c\<lparr>entries := (entries c)(g \<mapsto> addPage (entry_or_new c now g) p),
                   waits := w',
                   heap := (heap c)\<lparr>ch_closed := insert ch (ch_closed (heap c))\<rparr>\<rparr>, err)
           \<and> gate w' g (page_n p) = None
           \<and> (\<forall>g' k. (g', k) \<noteq> (g, page_n p) \<longrightarrow> gate w' g' k = gate (waits c) g' k)"
proof -
  obtain w' where w: "waiters_done (waits c) (heap c) g (page_n p) =
      Inr (w', (heap c)\<lparr>ch_closed := insert ch (ch_closed (heap c))\<rparr>)"
    "gate w' g (page_n p) = None"
    "\<forall>g' k. (g', k) \<noteq> (g, page_n p) \<longrightarrow> gate w' g' k = gate (waits c) g' k"
    using gate_done_some [OF assms] by blast
  show ?thesis
    using w by (intro exI [of _ w']) (simp add: cache_add_def entry_or_new_def Let_def)
qed

lemma cache_add_closed_gate:
  assumes "gate (waits c) g (page_n p) = Some ch" and "ch \<in> ch_closed (heap c)"
  shows "cache_add c now g p err = Inl CloseOfClosedChannel"
  using gate_done_closed [OF assms]
  by (simp add: cache_add_def Let_def)

lemma cache_add_total:
  assumes "chans_ok c"
  shows "\<exists>c'. cache_add c now g p err = Inr (c', err)"
proof (cases "gate (waits c) g (page_n p)")
  case None
  then show ?thesis by (simp add: cache_add_no_gate)
next
  case (Some ch)
  then have "ch \<notin> ch_closed (heap c)"
    using assms by (simp add: chans_ok_def)
  from cache_add_gate [OF Some this] show ?thesis by blast
qed

lemma cache_add_entries:
  assumes "cache_add c now g p err = Inr (c', r)"
  shows "entries c' = (entries c)(g \<mapsto> addPage (entry_or_new c now g) p)"
    and "spawned c' = spawned c"
    and "r = err"
  using assms
  by (auto simp: cache_add_def entry_or_new_def Let_def split: sum.splits)

lemma cache_add_ok:
  assumes "chans_ok c" and "cache_add c now g p err = Inr (c', r)"
  shows "chans_ok c'"
proof (cases "gate (waits c) g (page_n p)")
  case None
  then show ?thesis
    using assms by (simp add: cache_add_no_gate chans_ok_def) (auto simp: chans_ok_def)
next
  case (Some ch)
  then have op: "ch \<notin> ch_closed (heap c)" and lt: "ch < ch_next (heap c)"
    using assms(1) by (simp_all add: chans_ok_def)
  have inj: "\<And>g' k. gate (waits c) g' k = Some ch \<Longrightarrow> g' = g \<and> k = page_n p"
    using assms(1) Some unfolding chans_ok_def by blast
  obtain w' where w: "c' = c\<lparr>entries := (entries c)(g \<mapsto> addPage (entry_or_new c now g) p),
                   waits := w',
                   heap := (heap c)\<lparr>ch_closed := insert ch (ch_closed (heap c))\<rparr>\<rparr>"
      "gate w' g (page_n p) = None"
      "\<forall>g' k. (g', k) \<noteq> (g, page_n p) \<longrightarrow> gate w' g' k = gate (waits c) g' k"
    using cache_add_gate [OF Some op, of now err] assms(2) by auto
  have sub: "gate (waits c) g' k = Some x \<and> x \<noteq> ch" if "gate w' g' k = Some x" for g' k x
  proof -
    have ne: "(g', k) \<noteq> (g, page_n p)"
      using that w(2) by auto
    then have old: "gate (waits c) g' k = Some x"
      using that w(3) by auto
    then have "x \<noteq> ch"
      using inj [of g' k] ne by auto
    with old show ?thesis by simp
  qed
  have a: "x < ch_next (heap c') \<and> x \<notin> ch_closed (heap c')"
    if "gate (waits c') g' k = Some x" for g' k x
  proof -
    have "gate (waits c) g' k = Some x \<and> x \<noteq> ch"
      using sub that w(1) by simp
    then show ?thesis
      using assms(1) w(1) by (auto simp: chans_ok_def)
  qed
  have b: "g1 = g2 \<and> k1 = k2"
    if "gate (waits c') g1 k1 = Some x" and "gate (waits c') g2 k2 = Some x" for g1 k1 g2 k2 x
  proof -
    have "gate (waits c) g1 k1 = Some x" "gate (waits c) g2 k2 = Some x"
      using sub that w(1) by simp_all
    then show ?thesis
      using assms(1) unfolding chans_ok_def by blast
  qed
  have c: "x < ch_next (heap c')" if "x \<in> ch_closed (heap c')" for x
    using that assms(1) lt w(1) by (auto simp: chans_ok_def)
  show ?thesis
    unfolding chans_ok_def using a b c by blast
qed


subsection \<open>The closure of \<open>get\<close> and the events\<close>

lemma get_query_hit:
  assumes "entries c g = Some e" and "0 < deadline e" and "pages e n = Some b"
  shows "get_query c clock g n =
           (c, Some \<lparr>page_n = n, page_body = b, page_expire = deadline e, page_cached = False\<rparr>,
            None)"
  using assms
  by (simp add: get_query_def invalid_def time_After_def zero_time_def getPage_def newPage_def)

lemma is_hit_iff:
  "is_hit c g n \<longleftrightarrow> (\<exists>e b. entries c g = Some e \<and> 0 < deadline e \<and> pages e n = Some b)"
  by (auto simp: is_hit_def invalid_def time_After_def zero_time_def split: option.splits)

lemma get_query_miss:
  assumes "\<not> is_hit c g n"
  shows "get_query c clock g n =
           (fst (cache_request c g n), None, Some (snd (cache_request c g n)))"
  using assms
  by (auto simp: get_query_def is_hit_def getPage_def Let_def split_beta split: option.splits)

lemma get_query_wait_iff:
  "snd (snd (get_query c clock g n)) = None \<longleftrightarrow> is_hit c g n"
proof (cases "is_hit c g n")
  case True
  then obtain e b where "entries c g = Some e" "0 < deadline e" "pages e n = Some b"
    by (auto simp: is_hit_iff)
  then show ?thesis using True by (simp add: get_query_hit)
next
  case False
  then show ?thesis by (simp add: get_query_miss)
qed

lemma get_query_entries:
  "entries (fst (get_query c clock g n)) = entries c"
proof (cases "is_hit c g n")
  case True
  then obtain e b where "entries c g = Some e" "0 < deadline e" "pages e n = Some b"
    by (auto simp: is_hit_iff)
  then show ?thesis by (simp add: get_query_hit)
next
  case False
  then show ?thesis by (simp add: get_query_miss cache_request_entries)
qed

lemma get_query_ok:
  assumes "chans_ok c"
  shows "chans_ok (fst (get_query c clock g n))"
proof (cases "is_hit c g n")
  case True
  then obtain e b where "entries c g = Some e" "0 < deadline e" "pages e n = Some b"
    by (auto simp: is_hit_iff)
  then show ?thesis using assms by (simp add: get_query_hit)
next
  case False
  then show ?thesis using assms by (simp add: get_query_miss cache_request_ok)
qed

lemma task_finish_add:
  "task_finish c now t r =
     cache_add c now (task_group t)
       (newPage (task_page t) (case r of Inl e \<Rightarrow> [] | Inr b \<Rightarrow> b))
       (case r of Inl e \<Rightarrow> Some (CannotFetch (task_offset t) (GetError e)) | Inr b \<Rightarrow> None)"
  by (simp add: task_finish_def split: sum.splits)

lemma chans_ok_newCache: "chans_ok newCache"
  by (simp add: chans_ok_def newCache_def newWaiters_def gate_def)

lemma run_event_total:
  assumes "chans_ok c"
  shows "\<exists>c'. run_event c ev = Inr c'"
proof (cases ev)
  case (Pair now e)
  show ?thesis
  proof (cases e)
    case (Add g p err)
    with Pair cache_add_total [OF assms, of now g p err] show ?thesis by auto
  next
    case (Finish t r)
    obtain c' where "task_finish c now t r = Inr (c', 
        case r of Inl e \<Rightarrow> Some (CannotFetch (task_offset t) (GetError e)) | Inr b \<Rightarrow> None)"
      unfolding task_finish_add using cache_add_total [OF assms] by blast
    with Pair Finish show ?thesis by simp
  qed (use Pair in auto)
qed

lemma chans_ok_run_event:
  assumes "chans_ok c" and "run_event c ev = Inr c'"
  shows "chans_ok c'"
proof (cases ev)
  case (Pair now e)
  show ?thesis
  proof (cases e)
    case (Add g p err)
    then show ?thesis
      using assms Pair cache_add_ok [OF assms(1)]
      by (cases "cache_add c now g p err") auto
  next
    case (Finish t r)
    then show ?thesis
      using assms Pair cache_add_ok [OF assms(1)]
      by (cases "task_finish c now t r") (auto simp: task_finish_add)
  next
    case (Sweep ks)
    then show ?thesis using assms Pair by (auto simp: gc_sweep_ok)
  next
    case (Query g n)
    then show ?thesis using assms Pair by (auto simp: get_query_ok)
  qed
qed

lemma run_events_total:
  "chans_ok c \<Longrightarrow> \<exists>c'. run_events c evs = Inr c' \<and> chans_ok c'"
proof (induction evs arbitrary: c)
  case Nil
  then show ?case by simp
next
  case (Cons ev evs)
  obtain c1 where c1: "run_event c ev = Inr c1"
    using run_event_total [OF Cons.prems] by blast
  then have "chans_ok c1"
    using chans_ok_run_event Cons.prems by blast
  from Cons.IH [OF this] c1 show ?case by simp
qed


subsection \<open>The sweeper\<close>

text \<open>
  Claim C6. A pass of the sweeper, run at time \<open>now\<close> over the keys of the map in any
  order, removes the entry of a group exactly when its deadline is at or before \<open>now\<close>:
  an entry whose deadline is later stays as it is, and every entry whose deadline has passed
  is gone after the pass.
\<close>
theorem sweep_removes_exactly_expired:
  assumes "set ks = dom (entries c)"
  shows "entries (gc_sweep ks c now) g =
           (case entries c g of
              None \<Rightarrow> None
            | Some e \<Rightarrow> if deadline e \<le> now then None else Some e)"
  using assms by (auto simp: gc_sweep_entries split: option.splits)

theorem sweep_removes_exactly_expired_witness:
  "set [''old'', ''new''] =
     dom (entries (newCache\<lparr>entries := [''old'' \<mapsto> \<lparr>deadline = 100, pages = Map.empty\<rparr>,
                                         ''new'' \<mapsto> \<lparr>deadline = 300, pages = Map.empty\<rparr>]\<rparr>))
   \<and> entries (gc_sweep [''old'', ''new'']
        (newCache\<lparr>entries := [''old'' \<mapsto> \<lparr>deadline = 100, pages = Map.empty\<rparr>,
                               ''new'' \<mapsto> \<lparr>deadline = 300, pages = Map.empty\<rparr>]\<rparr>) 200) ''old'' = None
   \<and> entries (gc_sweep [''old'', ''new'']
        (newCache\<lparr>entries := [''old'' \<mapsto> \<lparr>deadline = 100, pages = Map.empty\<rparr>,
                               ''new'' \<mapsto> \<lparr>deadline = 300, pages = Map.empty\<rparr>]\<rparr>) 200) ''new''
       = Some \<lparr>deadline = 300, pages = Map.empty\<rparr>"
proof -
  let ?c = "newCache\<lparr>entries := [''old'' \<mapsto> \<lparr>deadline = 100, pages = Map.empty\<rparr>,
                                   ''new'' \<mapsto> \<lparr>deadline = 300, pages = Map.empty\<rparr>]\<rparr>"
  have h: "set [''old'', ''new''] = dom (entries ?c)"
    by auto
  show ?thesis
    using h sweep_removes_exactly_expired [OF h, of 200 "''old''"]
      sweep_removes_exactly_expired [OF h, of 200 "''new''"]
    by simp
qed


subsection \<open>Storing a page\<close>

lemma cache_add_effect:
  assumes "chans_ok c"
  shows "\<exists>c'. cache_add c now g p err = Inr (c', err)
           \<and> entries c' = (entries c)(g \<mapsto> addPage (entry_or_new c now g) p)
           \<and> gate (waits c') g (page_n p) = None
           \<and> (\<forall>ch. gate (waits c) g (page_n p) = Some ch \<longrightarrow> ch \<in> ch_closed (heap c'))"
proof (cases "gate (waits c) g (page_n p)")
  case None
  then show ?thesis by (simp add: cache_add_no_gate)
next
  case (Some ch)
  then have "ch \<notin> ch_closed (heap c)"
    using assms by (simp add: chans_ok_def)
  from cache_add_gate [OF Some this, of now err] Some show ?thesis
    by auto
qed

lemma cache_add_err_irrelevant:
  "map_sum id fst (cache_add c now g p err) = map_sum id fst (cache_add c now g p err')"
  by (simp add: cache_add_def Let_def split: sum.splits prod.splits)

lemma entry_or_new_simps:
  "pages (addPage ce p) (page_n p) = Some (page_body p)"
  "deadline (addPage ce p) = deadline ce"
  "k \<noteq> page_n p \<Longrightarrow> pages (addPage ce p) k = pages ce k"
  "entries c g = None \<Longrightarrow> deadline (entry_or_new c now g) = now + 5 * minute"
  "entries c g = Some e \<Longrightarrow> entry_or_new c now g = e"
  by (simp_all add: addPage_def entry_or_new_def newCacheEntry_def time_Add_def)

lemma gate_newCache: "gate (waits newCache) g k = None"
  by (simp add: gate_def newCache_def newWaiters_def)

text \<open>
  Claim C4. In a state whose channels are in order, the closure of \<open>add\<close> does not
  panic and returns the error it was given. It puts the body of the page into the entry of
  the group whatever that error is (the resulting state is the same for every error), in a
  new entry whose deadline is five minutes after the clock when the group had none. After
  it no channel is registered for the group and the page, and the channel that was
  registered is closed. The same holds for the goroutine of \<open>fetch\<close>, which calls
  \<open>add\<close> with the body read, or with the nil body when \<open>m.get\<close> failed.
\<close>
theorem add_stores_and_signals:
  assumes "chans_ok c"
  shows "(\<exists>c'. cache_add c now g p err = Inr (c', err)
           \<and> (\<forall>err'. \<exists>r. cache_add c now g p err' = Inr (c', r))
           \<and> (\<exists>e'. entries c' g = Some e'
                 \<and> pages e' (page_n p) = Some (page_body p)
                 \<and> (entries c g = None \<longrightarrow> deadline e' = now + 5 * minute))
           \<and> gate (waits c') g (page_n p) = None
           \<and> (\<forall>ch. gate (waits c) g (page_n p) = Some ch \<longrightarrow> ch \<in> ch_closed (heap c')))
       \<and> (\<exists>c' r'. task_finish c now t r = Inr (c', r')
           \<and> (\<exists>e'. entries c' (task_group t) = Some e'
                 \<and> pages e' (task_page t) = Some (case r of Inl e \<Rightarrow> [] | Inr b \<Rightarrow> b))
           \<and> gate (waits c') (task_group t) (task_page t) = None
           \<and> (\<forall>ch. gate (waits c) (task_group t) (task_page t) = Some ch \<longrightarrow>
                  ch \<in> ch_closed (heap c')))"
proof -
  have add: "\<exists>c'. cache_add c now g p err = Inr (c', err)
           \<and> (\<forall>err'. \<exists>r. cache_add c now g p err' = Inr (c', r))
           \<and> (\<exists>e'. entries c' g = Some e'
                 \<and> pages e' (page_n p) = Some (page_body p)
                 \<and> (entries c g = None \<longrightarrow> deadline e' = now + 5 * minute))
           \<and> gate (waits c') g (page_n p) = None
           \<and> (\<forall>ch. gate (waits c) g (page_n p) = Some ch \<longrightarrow> ch \<in> ch_closed (heap c'))"
    for g p err
  proof -
    obtain c' where c': "cache_add c now g p err = Inr (c', err)"
        "entries c' = (entries c)(g \<mapsto> addPage (entry_or_new c now g) p)"
        "gate (waits c') g (page_n p) = None"
        "\<forall>ch. gate (waits c) g (page_n p) = Some ch \<longrightarrow> ch \<in> ch_closed (heap c')"
      using cache_add_effect [OF assms] by blast
    have "\<exists>r. cache_add c now g p err' = Inr (c', r)" for err'
      using cache_add_err_irrelevant [of c now g p err' err] c'(1)
      by (cases "cache_add c now g p err'") auto
    then show ?thesis
      using c' by (auto simp: entry_or_new_simps)
  qed
  have fin: "\<exists>c' r'. task_finish c now t r = Inr (c', r')
           \<and> (\<exists>e'. entries c' (task_group t) = Some e'
                 \<and> pages e' (task_page t) = Some (case r of Inl e \<Rightarrow> [] | Inr b \<Rightarrow> b))
           \<and> gate (waits c') (task_group t) (task_page t) = None
           \<and> (\<forall>ch. gate (waits c) (task_group t) (task_page t) = Some ch \<longrightarrow>
                  ch \<in> ch_closed (heap c'))"
    unfolding task_finish_add
    using add [of "task_group t" "newPage (task_page t) (case r of Inl e \<Rightarrow> [] | Inr b \<Rightarrow> b)"]
    by (simp add: newPage_def) blast
  from add fin show ?thesis by blast
qed

theorem add_stores_and_signals_witness:
  "chans_ok (fst (cache_request newCache ''abc'' 5))
   \<and> gate (waits (fst (cache_request newCache ''abc'' 5))) ''abc'' 5 = Some 0
   \<and> (\<exists>c' r'. task_finish (fst (cache_request newCache ''abc'' 5)) 1000
                 (mk_task ''abc'' 5) (Inl ''connection refused'') = Inr (c', r')
         \<and> (\<exists>e'. entries c' ''abc'' = Some e' \<and> pages e' 5 = Some [])
         \<and> gate (waits c') ''abc'' 5 = None
         \<and> 0 \<in> ch_closed (heap c'))"
proof -
  let ?c = "fst (cache_request newCache ''abc'' 5)"
  have h: "chans_ok ?c"
    by (simp add: cache_request_ok chans_ok_newCache)
  have g: "gate (waits ?c) ''abc'' 5 = Some 0"
    by (simp add: cache_request_gate cache_wait_chan gate_newCache) (simp add: newCache_def)
  show ?thesis
    using h g add_stores_and_signals [OF h, of 1000 "''abc''" "newPage 5 []" None
        "mk_task ''abc'' 5" "Inl ''connection refused''"]
    by (simp add: mk_task_def)
qed

lemma run_event_deadline:
  assumes "entries c g = Some e" and "run_event c (now, ev) = Inr c'"
    and "entries c' g = Some e'"
  shows "deadline e' = deadline e"
proof (cases ev)
  case (Add g0 p err)
  then obtain r where "cache_add c now g0 p err = Inr (c', r)"
    using assms(2) by (cases "cache_add c now g0 p err") auto
  from cache_add_entries(1) [OF this] assms(1,3) show ?thesis
    by (cases "g = g0") (auto simp: entry_or_new_simps)
next
  case (Finish t r)
  then obtain r' where "task_finish c now t r = Inr (c', r')"
    using assms(2) by (cases "task_finish c now t r") auto
  from cache_add_entries(1) [OF this [unfolded task_finish_add]] assms(1,3) show ?thesis
    by (cases "g = task_group t") (auto simp: entry_or_new_simps)
next
  case (Sweep ks)
  then show ?thesis
    using assms by (auto simp: gc_sweep_entries split: if_splits)
next
  case (Query g0 n)
  then show ?thesis
    using assms by (auto simp: get_query_entries)
qed

text \<open>
  Claim C7. The deadline of an entry is set when \<open>add\<close> makes the entry, to five minutes
  after the clock. \<open>add\<close> on a group that has an entry stores the body of the page and
  leaves the deadline and every other page of the entry as they were. No closure changes
  the deadline of an entry that is there before and after it.
\<close>
theorem entry_deadline_fixed:
  "(entries c g = None \<and> cache_add c now g p err = Inr (c', r) \<longrightarrow>
      (\<exists>e'. entries c' g = Some e' \<and> deadline e' = now + 5 * minute))
   \<and> (entries c g = Some e \<and> cache_add c now g p err = Inr (c', r) \<longrightarrow>
      (\<exists>e'. entries c' g = Some e' \<and> deadline e' = deadline e
          \<and> pages e' (page_n p) = Some (page_body p)
          \<and> (\<forall>k. k \<noteq> page_n p \<longrightarrow> pages e' k = pages e k)))
   \<and> (entries c g = Some e \<and> run_event c (now, ev) = Inr c'' \<and> entries c'' g = Some e'' \<longrightarrow>
      deadline e'' = deadline e)"
proof -
  have a: "\<exists>e'. entries c' g = Some e' \<and> deadline e' = now + 5 * minute"
    if "entries c g = None" and "cache_add c now g p err = Inr (c', r)"
    using cache_add_entries(1) [OF that(2)] that(1) by (simp add: entry_or_new_simps)
  have b: "\<exists>e'. entries c' g = Some e' \<and> deadline e' = deadline e
          \<and> pages e' (page_n p) = Some (page_body p)
          \<and> (\<forall>k. k \<noteq> page_n p \<longrightarrow> pages e' k = pages e k)"
    if "entries c g = Some e" and "cache_add c now g p err = Inr (c', r)"
    using cache_add_entries(1) [OF that(2)] that(1) by (simp add: entry_or_new_simps)
  show ?thesis
    using a b run_event_deadline [of c g e now ev c'' e''] by blast
qed

theorem entry_deadline_fixed_witness:
  "entries newCache ''abc'' = None
   \<and> cache_add newCache 100 ''abc'' (newPage 0 [1]) None
       = Inr (newCache\<lparr>entries := [''abc'' \<mapsto> \<lparr>deadline = 100 + 5 * minute, pages = [0 \<mapsto> [1]]\<rparr>]\<rparr>, None)
   \<and> (\<exists>e'. entries (newCache\<lparr>entries := [''abc'' \<mapsto> \<lparr>deadline = 100 + 5 * minute, pages = [0 \<mapsto> [1]]\<rparr>]\<rparr>) ''abc'' = Some e'
          \<and> deadline e' = 100 + 5 * minute)
   \<and> entries (newCache\<lparr>entries := [''abc'' \<mapsto> \<lparr>deadline = 500, pages = [0 \<mapsto> [1]]\<rparr>]\<rparr>) ''abc''
       = Some \<lparr>deadline = 500, pages = [0 \<mapsto> [1]]\<rparr>
   \<and> cache_add (newCache\<lparr>entries := [''abc'' \<mapsto> \<lparr>deadline = 500, pages = [0 \<mapsto> [1]]\<rparr>]\<rparr>)
         900 ''abc'' (newPage 1 [2]) None
       = Inr (newCache\<lparr>entries := [''abc'' \<mapsto> \<lparr>deadline = 500, pages = [0 \<mapsto> [1], 1 \<mapsto> [2]]\<rparr>]\<rparr>, None)
   \<and> run_event (newCache\<lparr>entries := [''abc'' \<mapsto> \<lparr>deadline = 500, pages = [0 \<mapsto> [1]]\<rparr>]\<rparr>)
         (900, Add ''abc'' (newPage 1 [2]) None)
       = Inr (newCache\<lparr>entries := [''abc'' \<mapsto> \<lparr>deadline = 500, pages = [0 \<mapsto> [1], 1 \<mapsto> [2]]\<rparr>]\<rparr>)
   \<and> (\<exists>e'. entries (newCache\<lparr>entries := [''abc'' \<mapsto> \<lparr>deadline = 500, pages = [0 \<mapsto> [1], 1 \<mapsto> [2]]\<rparr>]\<rparr>) ''abc'' = Some e'
          \<and> deadline e' = 500 \<and> pages e' 1 = Some [2] \<and> pages e' 0 = Some [1])"
proof -
  let ?c0 = "newCache\<lparr>entries := [''abc'' \<mapsto> \<lparr>deadline = 500, pages = [0 \<mapsto> [1]]\<rparr>]\<rparr>"
  let ?c1 = "newCache\<lparr>entries := [''abc'' \<mapsto> \<lparr>deadline = 500, pages = [0 \<mapsto> [1], 1 \<mapsto> [2]]\<rparr>]\<rparr>"
  let ?c2 = "newCache\<lparr>entries := [''abc'' \<mapsto> \<lparr>deadline = 100 + 5 * minute, pages = [0 \<mapsto> [1]]\<rparr>]\<rparr>"
  have h1: "entries newCache ''abc'' = None"
    by (simp add: newCache_def)
  have g1: "gate (waits newCache) ''abc'' (page_n (newPage 0 [1])) = None"
    by (simp add: gate_newCache)
  have h2: "cache_add newCache 100 ''abc'' (newPage 0 [1]) None = Inr (?c2, None)"
    by (subst cache_add_no_gate [OF g1])
      (simp add: entry_or_new_def newCacheEntry_def addPage_def newPage_def time_Add_def
         newCache_def)
  have h3: "entries ?c0 ''abc'' = Some \<lparr>deadline = 500, pages = [0 \<mapsto> [1]]\<rparr>"
    by simp
  have g0: "gate (waits ?c0) ''abc'' (page_n (newPage 1 [2])) = None"
    by (simp add: gate_newCache)
  have h4: "cache_add ?c0 900 ''abc'' (newPage 1 [2]) None = Inr (?c1, None)"
    by (subst cache_add_no_gate [OF g0]) (simp add: entry_or_new_def addPage_def newPage_def)
  have h5: "run_event ?c0 (900, Add ''abc'' (newPage 1 [2]) None) = Inr ?c1"
    by (simp add: h4)
  note t = entry_deadline_fixed [of newCache "''abc''" 100 "newPage 0 [1]" None ?c2 None]
  note u = entry_deadline_fixed [of ?c0 "''abc''" 900 "newPage 1 [2]" None ?c1 None
      "\<lparr>deadline = 500, pages = [0 \<mapsto> [1]]\<rparr>"]
  have k1: "\<exists>e'. entries ?c2 ''abc'' = Some e' \<and> deadline e' = 100 + 5 * minute"
    using t h1 h2 by blast
  have k2: "\<exists>e'. entries ?c1 ''abc'' = Some e' \<and> deadline e' = 500
      \<and> pages e' 1 = Some [2] \<and> pages e' 0 = Some [1]"
    using u h3 h4 by (simp add: newPage_def)
  show ?thesis
    using h1 h2 h3 h4 h5 k1 k2 by blast
qed


subsection \<open>What a request registers and starts\<close>

lemma page_above_two:
  fixes n :: go_int
  assumes "2 <s n"
  shows "n + n \<notin> {0, 1, 2}" and "n \<notin> {0, 1, 2}" and "n + 1 \<notin> {0, 1, 2}" and "n + 2 \<notin> {0, 1, 2}"
proof -
  have lo: "2 < sint n"
    using assms by (simp add: word_sless_alt)
  have hi: "sint n < 2 ^ 63"
    using sint_lt [of n] by simp
  have ne: "(word_of_int i :: go_int) \<noteq> word_of_int j"
    if "0 \<le> i" "i < 2 ^ 64" "0 \<le> j" "j < 2 ^ 64" "i \<noteq> j" for i j
    using that by (simp add: word_of_int_eq_iff take_bit_int_eq_self)
  have n: "n = word_of_int (sint n)"
    by simp
  have far: "n + word_of_int d \<noteq> word_of_int j"
    if "0 \<le> d" "d \<le> sint n" "0 \<le> j" "j \<le> 2" for d j
  proof -
    have "n + word_of_int d = word_of_int (sint n) + word_of_int d"
      by simp
    also have "\<dots> = word_of_int (sint n + d)"
      by (simp only: wi_hom_add)
    finally have "n + word_of_int d = word_of_int (sint n + d)" .
    moreover have "(word_of_int (sint n + d) :: go_int) \<noteq> word_of_int j"
      using that lo hi by (intro ne) auto
    ultimately show ?thesis by metis
  qed
  have f0: "n + word_of_int (sint n) = n + n" "n + word_of_int 0 = n"
    "n + word_of_int 1 = n + 1" "n + word_of_int 2 = n + 2"
    "(word_of_int 0 :: go_int) = 0" "(word_of_int 1 :: go_int) = 1" "(word_of_int 2 :: go_int) = 2"
    by simp_all
  show "n + n \<notin> {0, 1, 2}"
    using far [of "sint n" 0] far [of "sint n" 1] far [of "sint n" 2] lo
    unfolding f0 by simp
  show "n \<notin> {0, 1, 2}"
    using far [of 0 0] far [of 0 1] far [of 0 2] lo unfolding f0 by simp
  show "n + 1 \<notin> {0, 1, 2}"
    using far [of 1 0] far [of 1 1] far [of 1 2] lo unfolding f0 by simp
  show "n + 2 \<notin> {0, 1, 2}"
    using far [of 2 0] far [of 2 1] far [of 2 2] lo unfolding f0 by simp
qed


lemma cache_add_other_gates:
  assumes "cache_add c now g p err = Inr (c', r)" and "(g', k) \<noteq> (g, page_n p)"
  shows "gate (waits c') g' k = gate (waits c) g' k"
proof (cases "gate (waits c) g (page_n p)")
  case None
  then show ?thesis using assms(1) by (auto simp: cache_add_no_gate)
next
  case (Some ch)
  show ?thesis
  proof (cases "ch \<in> ch_closed (heap c)")
    case True
    then show ?thesis
      using assms(1) cache_add_closed_gate [OF Some] by simp
  next
    case False
    from cache_add_gate [OF Some False, of now err] assms show ?thesis
      by auto
  qed
qed

lemma task_finish_other_gates:
  assumes "task_finish s now t r = Inr (s', e)" and "k \<noteq> task_page t"
  shows "gate (waits s') g k = gate (waits s) g k"
  using cache_add_other_gates [OF assms(1) [unfolded task_finish_add], of g k] assms(2)
  by (simp add: newPage_def)

text \<open>
  Claim C10. A call of \<open>request\<close> for page \<open>n\<close> of a group starts four goroutines, which
  report pages \<open>n + n\<close>, \<open>n\<close>, \<open>n + 1\<close> and \<open>n + 2\<close> (\<open>fetch\<close> adds \<open>m.first\<close>, which is
  \<open>n\<close>, to its argument, and the first call passes \<open>n\<close> itself). The pairs with a channel
  after the call are those that had one before and, for the group, the pages \<open>n\<close>, \<open>0\<close>,
  \<open>1\<close> and \<open>2\<close> (the loop registers its counter). When \<open>n\<close> is above \<open>2\<close>, none of the
  four goroutines reports page \<open>0\<close>, \<open>1\<close> or \<open>2\<close>, and whatever state one of them
  finishes in, it leaves the channels of these three pages as they are.
\<close>
theorem request_gates_and_tasks:
  "spawned (fst (cache_request c g n)) =
     spawned c @ [mk_task g (n + n), mk_task g n, mk_task g (n + 1), mk_task g (n + 2)]
   \<and> (\<forall>g' k. gate (waits (fst (cache_request c g n))) g' k \<noteq> None \<longleftrightarrow>
          gate (waits c) g' k \<noteq> None \<or> (g' = g \<and> k \<in> {n, 0, 1, 2}))
   \<and> (2 <s n \<longrightarrow>
        (\<forall>t \<in> set [mk_task g (n + n), mk_task g n, mk_task g (n + 1), mk_task g (n + 2)].
           \<forall>k \<in> {0, 1, 2}.
             task_page t \<noteq> k
             \<and> (\<forall>s now r s' e. task_finish s now t r = Inr (s', e) \<longrightarrow>
                   gate (waits s') g k = gate (waits s) g k)))"
proof -
  have third: "task_page t \<noteq> k
             \<and> (\<forall>s now r s' e. task_finish s now t r = Inr (s', e) \<longrightarrow>
                   gate (waits s') g k = gate (waits s) g k)"
    if "2 <s n" and "t \<in> set [mk_task g (n + n), mk_task g n, mk_task g (n + 1), mk_task g (n + 2)]"
      and "k \<in> {0, 1, 2}" for t k
  proof -
    have "task_page t \<in> {n + n, n, n + 1, n + 2}"
      using that(2) by (auto simp: mk_task_def)
    then have "task_page t \<noteq> k"
      using page_above_two [OF that(1)] that(3) by auto
    then have "k \<noteq> task_page t"
      by simp
    from task_finish_other_gates [OF _ this] \<open>task_page t \<noteq> k\<close> show ?thesis
      by blast
  qed
  have first: "spawned (fst (cache_request c g n)) =
     spawned c @ [mk_task g (n + n), mk_task g n, mk_task g (n + 1), mk_task g (n + 2)]"
    by (rule cache_request_spawned)
  have second: "\<forall>g' k. gate (waits (fst (cache_request c g n))) g' k \<noteq> None \<longleftrightarrow>
          gate (waits c) g' k \<noteq> None \<or> (g' = g \<and> k \<in> {n, 0, 1, 2})"
    using cache_request_dom [of c g n] by (intro allI)
  have last: "2 <s n \<longrightarrow>
        (\<forall>t \<in> set [mk_task g (n + n), mk_task g n, mk_task g (n + 1), mk_task g (n + 2)].
           \<forall>k \<in> {0, 1, 2}.
             task_page t \<noteq> k
             \<and> (\<forall>s now r s' e. task_finish s now t r = Inr (s', e) \<longrightarrow>
                   gate (waits s') g k = gate (waits s) g k))"
    by (intro impI ballI) (rule third)
  show ?thesis
    by (intro conjI first second last)
qed

theorem request_gates_and_tasks_witness:
  "(2::go_int) <s 5
   \<and> spawned (fst (cache_request newCache ''abc'' 5)) =
       spawned newCache @ [mk_task ''abc'' (5 + 5), mk_task ''abc'' 5, mk_task ''abc'' (5 + 1),
                  mk_task ''abc'' (5 + 2)]
   \<and> task_page (mk_task ''abc'' (5 + 2)) \<noteq> 0
   \<and> (\<exists>s' e. task_finish (fst (cache_request newCache ''abc'' 5)) 1000
                 (mk_task ''abc'' (5 + 2)) (Inr [65]) = Inr (s', e)
         \<and> gate (waits s') ''abc'' 0 = gate (waits (fst (cache_request newCache ''abc'' 5))) ''abc'' 0)"
proof -
  let ?s = "fst (cache_request newCache ''abc'' 5)"
  let ?t = "mk_task ''abc'' (5 + 2)"
  have h: "(2::go_int) <s 5"
    by (simp add: word_sless_alt)
  note t = request_gates_and_tasks [of newCache "''abc''" 5]
  from t have s: "spawned ?s =
       spawned newCache @ [mk_task ''abc'' (5 + 5), mk_task ''abc'' 5, mk_task ''abc'' (5 + 1), ?t]"
    by (rule conjunct1)
  from t h have d: "\<forall>t \<in> set [mk_task ''abc'' (5 + 5), mk_task ''abc'' 5, mk_task ''abc'' (5 + 1), ?t].
         \<forall>k \<in> {0, 1, 2}. task_page t \<noteq> k
             \<and> (\<forall>s now r s' e. task_finish s now t r = Inr (s', e) \<longrightarrow>
                   gate (waits s') ''abc'' k = gate (waits s) ''abc'' k)"
    by (elim conjE impE)
  have mem: "?t \<in> set [mk_task ''abc'' (5 + 5), mk_task ''abc'' 5, mk_task ''abc'' (5 + 1), ?t]"
    by simp
  have zero: "(0::go_int) \<in> {0, 1, 2}"
    by simp
  note d0 = d [rule_format, OF mem zero]
  have ne: "task_page ?t \<noteq> 0"
    using d0 by (rule conjunct1)
  have ok: "chans_ok ?s"
    by (simp add: cache_request_ok chans_ok_newCache)
  obtain s' e where fin: "task_finish ?s 1000 ?t (Inr [65]) = Inr (s', e)"
    unfolding task_finish_add using cache_add_total [OF ok] by blast
  have same: "gate (waits s') ''abc'' 0 = gate (waits ?s) ''abc'' 0"
    using d0 fin by blast
  have ex: "\<exists>s' e. task_finish ?s 1000 ?t (Inr [65]) = Inr (s', e)
         \<and> gate (waits s') ''abc'' 0 = gate (waits ?s) ''abc'' 0"
    by (intro exI [of _ s'] exI [of _ e] conjI fin same)
  show ?thesis
    by (intro conjI h s ne ex)
qed

subsection \<open>A miss\<close>

lemma spawned_for_request:
  "length (spawned_for g n c) < length (spawned_for g n (fst (cache_request c g n)))"
  by (simp add: spawned_for_def cache_request_spawned mk_task_def)

lemma cache_request_not_hit:
  "is_hit (fst (cache_request c g n)) g' k = is_hit c g' k"
  by (simp add: is_hit_def cache_request_entries)

text \<open>
  Two callers ask for page 1 of a group that is not cached, the second before any fetch
  has finished. Both get the same channel, and two goroutines fetch page 1.
\<close>

theorem miss_spawns_counterexample:
  "length (spawned_for ''abc'' 1
     (fst (get_query (fst (get_query newCache 10 ''abc'' 1)) 11 ''abc'' 1))) = 2
   \<and> snd (snd (get_query newCache 10 ''abc'' 1)) = Some 0
   \<and> snd (snd (get_query (fst (get_query newCache 10 ''abc'' 1)) 11 ''abc'' 1)) = Some 0"
proof -
  have m1: "\<not> is_hit newCache ''abc'' 1"
    by (simp add: is_hit_def newCache_def)
  then have m2: "\<not> is_hit (fst (cache_request newCache ''abc'' 1)) ''abc'' 1"
    by (simp add: cache_request_not_hit)
  have s0: "spawned newCache = []"
    by (simp add: newCache_def)
  have h0: "ch_next (heap newCache) = 0"
    by (simp add: newCache_def)
  show ?thesis
    by (simp add: get_query_miss m1 m2 spawned_for_def cache_request_spawned mk_task_def s0
          cache_request_chan cache_wait_chan cache_request_own_gate gate_newCache h0)
qed

text \<open>
  Claim C1, amended. While a group and a page are not cached there is one channel for the
  pair: the closure of \<open>get\<close> that misses first makes the channel, and every later one
  that misses while the channel is registered gets that same channel. Every such closure,
  the first and the later ones, starts a goroutine of its own that fetches the page, and
  the page is still not cached when the closure ends.
\<close>

theorem miss_attaches_and_spawns:
  assumes "\<not> is_hit c g n"
  shows "\<exists>c' ch. get_query c clock g n = (c', None, Some ch)
           \<and> gate (waits c') g n = Some ch
           \<and> (gate (waits c) g n = None \<longrightarrow> ch = ch_next (heap c))
           \<and> (\<forall>ch0. gate (waits c) g n = Some ch0 \<longrightarrow> ch = ch0)
           \<and> length (spawned_for g n c) < length (spawned_for g n c')
           \<and> \<not> is_hit c' g n"
  using assms
  by (simp add: get_query_miss cache_request_own_gate cache_request_chan cache_wait_chan
        spawned_for_request cache_request_not_hit)

text \<open>
  \<open>get("abc", 0)\<close> on the empty cache: the goroutines started fetch pages 0, 0, 1 and 2,
  and page 3 has neither a goroutine nor a channel.
\<close>

theorem prefetch_counterexample:
  "map task_page (spawned (fst (get_query newCache 1000 ''abc'' 0))) = [0, 0, 1, 2]
   \<and> gate (waits (fst (get_query newCache 1000 ''abc'' 0))) ''abc'' 3 = None"
proof -
  have m1: "\<not> is_hit newCache ''abc'' 0"
    by (simp add: is_hit_def newCache_def)
  have s0: "spawned newCache = []"
    by (simp add: newCache_def)
  show ?thesis
    by (simp add: get_query_miss m1 cache_request_spawned mk_task_def s0 cache_request_gate
          gate_newCache)
qed

text \<open>
  Claim C2, amended. When the closure of \<open>get\<close> misses page \<open>n\<close> of a group, it
  registers a channel for that page, which is the channel the caller waits on, and starts
  goroutines that fetch the pages \<open>n\<close>, \<open>n + 1\<close> and \<open>n + 2\<close>. The channel is registered
  when the closure ends, before the closure of any of these goroutines can run. On the
  empty cache \<open>get("abc", 0)\<close> so starts fetches of the pages 0, 1 and 2.
\<close>

theorem miss_fetches_three_pages:
  assumes "\<not> is_hit c g n"
  shows "\<exists>c' ch. get_query c clock g n = (c', None, Some ch)
           \<and> gate (waits c') g n = Some ch
           \<and> (\<exists>ts. spawned c' = spawned c @ ts
                 \<and> (\<forall>k \<in> {n, n + 1, n + 2}. mk_task g k \<in> set ts))"
  using assms
  by (simp add: get_query_miss cache_request_own_gate cache_request_spawned)

theorem miss_attaches_and_spawns_witness:
  "\<not> is_hit newCache ''abc'' 1
   \<and> gate (waits newCache) ''abc'' 1 = None
   \<and> (\<exists>c' ch. get_query newCache 10 ''abc'' 1 = (c', None, Some ch)
         \<and> ch = ch_next (heap newCache)
         \<and> gate (waits c') ''abc'' 1 = Some ch
         \<and> length (spawned_for ''abc'' 1 newCache) < length (spawned_for ''abc'' 1 c')
         \<and> \<not> is_hit c' ''abc'' 1
         \<and> (\<exists>c'' ch'. get_query c' 11 ''abc'' 1 = (c'', None, Some ch')
               \<and> ch' = ch
               \<and> length (spawned_for ''abc'' 1 c') < length (spawned_for ''abc'' 1 c'')))"
proof -
  have h: "\<not> is_hit newCache ''abc'' 1"
    by (simp add: is_hit_def newCache_def)
  have g: "gate (waits newCache) ''abc'' 1 = None"
    by (simp add: gate_newCache)
  from miss_attaches_and_spawns [OF h, of 10]
  obtain c' ch where q1: "get_query newCache 10 ''abc'' 1 = (c', None, Some ch)"
    and g1: "gate (waits c') ''abc'' 1 = Some ch"
    and f1: "gate (waits newCache) ''abc'' 1 = None \<longrightarrow> ch = ch_next (heap newCache)"
    and a1: "\<forall>ch0. gate (waits newCache) ''abc'' 1 = Some ch0 \<longrightarrow> ch = ch0"
    and l1: "length (spawned_for ''abc'' 1 newCache) < length (spawned_for ''abc'' 1 c')"
    and m1: "\<not> is_hit c' ''abc'' 1"
    by (elim exE conjE) (rule that)
  from miss_attaches_and_spawns [OF m1, of 11]
  obtain c'' ch' where q2: "get_query c' 11 ''abc'' 1 = (c'', None, Some ch')"
    and g2: "gate (waits c'') ''abc'' 1 = Some ch'"
    and f2: "gate (waits c') ''abc'' 1 = None \<longrightarrow> ch' = ch_next (heap c')"
    and a2: "\<forall>ch0. gate (waits c') ''abc'' 1 = Some ch0 \<longrightarrow> ch' = ch0"
    and l2: "length (spawned_for ''abc'' 1 c') < length (spawned_for ''abc'' 1 c'')"
    and m2: "\<not> is_hit c'' ''abc'' 1"
    by (elim exE conjE) (rule that)
  have e1: "ch = ch_next (heap newCache)"
    using f1 g by simp
  have e2: "ch' = ch"
    using a2 g1 by simp
  have inner: "\<exists>c'' ch'. get_query c' 11 ''abc'' 1 = (c'', None, Some ch')
               \<and> ch' = ch
               \<and> length (spawned_for ''abc'' 1 c') < length (spawned_for ''abc'' 1 c'')"
    by (intro exI [of _ c''] exI [of _ ch'] conjI q2 e2 l2)
  show ?thesis
    by (intro conjI h g exI [of _ c'] exI [of _ ch] q1 e1 g1 l1 m1 inner)
qed

theorem miss_fetches_three_pages_witness:
  "\<not> is_hit newCache ''abc'' 0
   \<and> (\<exists>c' ch. get_query newCache 1000 ''abc'' 0 = (c', None, Some ch)
         \<and> gate (waits c') ''abc'' 0 = Some ch
         \<and> (\<exists>ts. spawned c' = spawned newCache @ ts
               \<and> (\<forall>k \<in> {0, 0 + 1, 0 + 2}. mk_task ''abc'' k \<in> set ts)))"
proof -
  have h: "\<not> is_hit newCache ''abc'' 0"
    by (simp add: is_hit_def newCache_def)
  from h miss_fetches_three_pages [OF h, of 1000] show ?thesis
    by (intro conjI)
qed


subsection \<open>The loop of \<open>get\<close>\<close>

lemma get_loop_hit:
  assumes "entries c g = Some e" and "0 < deadline e" and "pages e n = Some b"
  shows "get_loop cached c g n ((clock, evs) # rest) =
           Some (Inr (c, \<lparr>page_n = n, page_body = b, page_expire = deadline e,
                            page_cached = cached\<rparr>))"
  by (simp add: get_query_hit [OF assms])

lemma get_loop_miss:
  assumes "\<not> is_hit c g n"
  shows "get_loop cached c g n ((clock, evs) # rest) =
           (case run_events (fst (cache_request c g n)) evs of
              Inl e \<Rightarrow> Some (Inl e)
            | Inr c'' \<Rightarrow>
                if snd (cache_request c g n) \<in> ch_closed (heap c'')
                then get_loop False c'' g n rest else None)"
  by (simp add: get_query_miss [OF assms])

lemma get_loop_result:
  assumes "get_loop cached c g n sched = Some (Inr (c', p))"
  shows "(page_cached p \<longleftrightarrow> cached \<and> is_hit c g n)
         \<and> page_n p = n
         \<and> (\<exists>e. entries c' g = Some e \<and> pages e n = Some (page_body p)
                \<and> page_expire p = deadline e)"
  using assms
proof (induction sched arbitrary: cached c)
  case Nil
  then show ?case by simp
next
  case (Cons a sched)
  obtain clock evs where a: "a = (clock, evs)"
    by (cases a)
  show ?case
  proof (cases "is_hit c g n")
    case True
    then obtain e b where e: "entries c g = Some e" "0 < deadline e" "pages e n = Some b"
      by (auto simp: is_hit_iff)
    note r = get_loop_hit [OF e, of cached clock evs sched]
    from Cons.prems [unfolded a r]
    have "c' = c" and "p = \<lparr>page_n = n, page_body = b, page_expire = deadline e,
                            page_cached = cached\<rparr>"
      by simp_all
    with e True show ?thesis
      by simp
  next
    case False
    note r = get_loop_miss [OF False, of cached clock evs sched]
    from Cons.prems [unfolded a r] obtain c'' where
      "get_loop False c'' g n sched = Some (Inr (c', p))"
      by (auto split: sum.splits if_splits)
    from Cons.IH [OF this] False show ?thesis
      by simp
  qed
qed

lemma get_returns_after_fetch:
  assumes ok: "chans_ok c" and miss: "\<not> is_hit c g n"
    and live: "0 < deadline (entry_or_new c t g)"
  shows "\<exists>c'' e. cache_get c g n [(clock, [(t, Finish (mk_task g n) r)]), (clock', evs)] =
           Some (Inr (c'', \<lparr>page_n = n, page_body = (case r of Inl x \<Rightarrow> [] | Inr b \<Rightarrow> b),
                              page_expire = deadline e, page_cached = False\<rparr>))
           \<and> entries c'' g = Some e"
proof -
  let ?c1 = "fst (cache_request c g n)"
  let ?ch = "snd (cache_request c g n)"
  let ?b = "case r of Inl x \<Rightarrow> [] | Inr b \<Rightarrow> b"
  let ?p = "newPage n ?b"
  let ?err = "case r of Inl x \<Rightarrow> Some (CannotFetch (n * 10) (GetError x))
              | Inr b \<Rightarrow> None"
  let ?e = "addPage (entry_or_new c t g) ?p"
  have ok1: "chans_ok ?c1"
    using ok by (rule cache_request_ok)
  have gt: "gate (waits ?c1) g (page_n ?p) = Some ?ch"
    by (simp add: newPage_def cache_request_own_gate)
  have en: "entry_or_new ?c1 t g = entry_or_new c t g"
    by (simp add: entry_or_new_def cache_request_entries)
  from cache_add_effect [OF ok1, of t g ?p ?err]
  obtain c2 where add: "cache_add ?c1 t g ?p ?err = Inr (c2, ?err)"
    and ent: "entries c2 = (entries ?c1)(g \<mapsto> addPage (entry_or_new ?c1 t g) ?p)"
    and cl: "\<forall>ch. gate (waits ?c1) g (page_n ?p) = Some ch \<longrightarrow> ch \<in> ch_closed (heap c2)"
    by (elim exE conjE) (rule that)
  have fin: "task_finish ?c1 t (mk_task g n) r = Inr (c2, ?err)"
    using add by (cases r) (simp_all add: task_finish_add mk_task_def)
  have run: "run_events ?c1 [(t, Finish (mk_task g n) r)] = Inr c2"
    by (simp add: fin)
  have closed: "?ch \<in> ch_closed (heap c2)"
    using cl gt by simp
  have e2: "entries c2 g = Some ?e"
    using ent en by simp
  have d2: "0 < deadline ?e"
    using live by (simp add: entry_or_new_simps)
  have p2: "pages ?e n = Some ?b"
    by (simp add: addPage_def newPage_def)
  have second: "get_loop False c2 g n [(clock', evs)] =
      Some (Inr (c2, \<lparr>page_n = n, page_body = ?b, page_expire = deadline ?e,
                       page_cached = False\<rparr>))"
    by (rule get_loop_hit [OF e2 d2 p2])
  have "cache_get c g n [(clock, [(t, Finish (mk_task g n) r)]), (clock', evs)] =
      Some (Inr (c2, \<lparr>page_n = n, page_body = ?b, page_expire = deadline ?e,
                       page_cached = False\<rparr>))"
    unfolding cache_get_def get_loop_miss [OF miss] run using closed second by simp
  with e2 show ?thesis
    by blast
qed

lemma get_hit_unchanged:
  assumes "is_hit c g n"
  shows "\<exists>e b. entries c g = Some e \<and> pages e n = Some b
           \<and> (\<forall>clock evs rest. cache_get c g n ((clock, evs) # rest) =
                 Some (Inr (c, \<lparr>page_n = n, page_body = b, page_expire = deadline e,
                                  page_cached = True\<rparr>)))"
proof -
  from assms obtain e b where e: "entries c g = Some e" "0 < deadline e" "pages e n = Some b"
    by (auto simp: is_hit_iff)
  have "cache_get c g n ((clock, evs) # rest) =
                 Some (Inr (c, \<lparr>page_n = n, page_body = b, page_expire = deadline e,
                                  page_cached = True\<rparr>))" for clock evs rest
    unfolding cache_get_def by (rule get_loop_hit [OF e])
  with e show ?thesis
    by blast
qed


text \<open>
  From a state whose channels are in order, \<open>get\<close> does not panic, and it returns in
  such a state; so does every run of the program.
\<close>

lemma get_loop_ok:
  assumes "chans_ok c" and "get_loop cached c g n sched = Some r"
  shows "\<exists>c' p. r = Inr (c', p) \<and> chans_ok c'"
  using assms
proof (induction sched arbitrary: cached c)
  case Nil
  then show ?case by simp
next
  case (Cons a sched)
  obtain clock evs where a: "a = (clock, evs)"
    by (cases a)
  show ?case
  proof (cases "is_hit c g n")
    case True
    then obtain e b where e: "entries c g = Some e" "0 < deadline e" "pages e n = Some b"
      by (auto simp: is_hit_iff)
    from Cons.prems(2) [unfolded a get_loop_hit [OF e]] Cons.prems(1) show ?thesis
      by auto
  next
    case False
    have "chans_ok (fst (cache_request c g n))"
      using Cons.prems(1) by (rule cache_request_ok)
    from run_events_total [OF this, of evs] obtain c2 where
      c2: "run_events (fst (cache_request c g n)) evs = Inr c2" "chans_ok c2"
      by blast
    from Cons.prems(2) [unfolded a get_loop_miss [OF False] c2(1)]
    have "get_loop False c2 g n sched = Some r"
      by (simp split: if_splits)
    from Cons.IH [OF c2(2) this] show ?thesis .
  qed
qed

lemma session_ok:
  "chans_ok c \<Longrightarrow> session c acts = Some (c', ps) \<Longrightarrow> chans_ok c'"
proof (induction acts arbitrary: c ps)
  case Nil
  then show ?case by simp
next
  case (Cons act acts)
  show ?case
  proof (cases act)
    case (Call g n sched)
    with Cons.prems(2) obtain c1 p where
      r: "cache_get c g n sched = Some (Inr (c1, p))"
      by (auto split: option.splits sum.splits)
    with Cons.prems(2) Call obtain ps' where s: "session c1 acts = Some (c', ps')"
      by auto
    from get_loop_ok [OF Cons.prems(1) r [unfolded cache_get_def]] have "chans_ok c1"
      by simp
    from Cons.IH [OF this s] show ?thesis .
  next
    case (Background now ev)
    with Cons.prems(2) obtain c1 where r: "run_event c (now, ev) = Inr c1"
      and s: "session c1 acts = Some (c', ps)"
      by (auto split: sum.splits)
    from chans_ok_run_event [OF Cons.prems(1) r] have "chans_ok c1" .
    from Cons.IH [OF this s] show ?thesis .
  qed
qed


subsection \<open>Runs of the program\<close>

lemmas run_defs = cache_get_def get_query_def cache_request_unfold cache_wait_def
  waiters_wait_def make_chan_def newMultifetch_def multifetch_fetch_def newCache_def
  newWaiters_def task_finish_def cache_add_def waiters_done_def close_chan_def
  newCacheEntry_def addPage_def getPage_def newPage_def invalid_def time_After_def
  time_Add_def zero_time_def minute_def second_def mk_task_def gc_sweep_def Let_def

text \<open>
  A caller gets page 1 of a group after waiting for its fetch. Another caller then asks for
  page 0 of the group, which starts a second fetch of page 1; that fetch fails and \<open>add\<close>
  stores its nil body. The next \<open>get\<close> of page 1, well before the deadline, returns the
  empty body and not the one returned before.
\<close>

theorem repeated_get_counterexample:
  "map_option (map page_body \<circ> snd)
     (session newCache
        [Call ''abc'' 1 [(10, [(20, Finish (mk_task ''abc'' 1) (Inr [65]))]), (30, [])],
         Background 40 (Query ''abc'' 0),
         Background 50 (Finish (mk_task ''abc'' 1) (Inl ''reset'')),
         Call ''abc'' 1 [(60, [])]])
   = Some [ [65], [] ]"
  by (simp add: run_defs)


text \<open>
  Claim C8, amended. A \<open>get\<close> that finds the page returns at once, whatever the clock,
  with the body stored and \<open>cached\<close> set, and leaves the state as it is: calls repeated
  with no \<open>add\<close> for the pair and no sweep of the group in between return the same
  bytes. A call that returns has \<open>cached\<close> set exactly when it found the page without
  waiting, and returns the body stored when it returns. A call that misses returns, once
  the fetch of its page has been added, the body of that fetch with \<open>cached\<close> unset.
\<close>

theorem get_repeats_and_flag:
  "(is_hit c g n \<longrightarrow>
      (\<exists>e b. entries c g = Some e \<and> pages e n = Some b
         \<and> (\<forall>clock evs rest. cache_get c g n ((clock, evs) # rest) =
               Some (Inr (c, \<lparr>page_n = n, page_body = b, page_expire = deadline e,
                                page_cached = True\<rparr>)))))
   \<and> (cache_get c g n sched = Some (Inr (c', p)) \<longrightarrow>
        (page_cached p \<longleftrightarrow> is_hit c g n) \<and> page_n p = n
        \<and> (\<exists>e. entries c' g = Some e \<and> pages e n = Some (page_body p)
               \<and> page_expire p = deadline e))
   \<and> (chans_ok c \<and> \<not> is_hit c g n \<and> 0 < deadline (entry_or_new c t g) \<longrightarrow>
        (\<exists>c'' e. cache_get c g n [(clock, [(t, Finish (mk_task g n) r)]), (clock', evs)] =
           Some (Inr (c'', \<lparr>page_n = n, page_body = (case r of Inl x \<Rightarrow> [] | Inr b \<Rightarrow> b),
                              page_expire = deadline e, page_cached = False\<rparr>))
           \<and> entries c'' g = Some e))"
proof (intro conjI impI)
  assume "is_hit c g n"
  then show "\<exists>e b. entries c g = Some e \<and> pages e n = Some b
         \<and> (\<forall>clock evs rest. cache_get c g n ((clock, evs) # rest) =
               Some (Inr (c, \<lparr>page_n = n, page_body = b, page_expire = deadline e,
                                page_cached = True\<rparr>)))"
    by (rule get_hit_unchanged)
next
  assume r: "cache_get c g n sched = Some (Inr (c', p))"
  note res = get_loop_result [OF r [unfolded cache_get_def]]
  from res show "page_cached p = is_hit c g n" by simp
  from res show "page_n p = n" by simp
  from res show "\<exists>e. entries c' g = Some e \<and> pages e n = Some (page_body p)
               \<and> page_expire p = deadline e" by simp
next
  assume "chans_ok c \<and> \<not> is_hit c g n \<and> 0 < deadline (entry_or_new c t g)"
  then show "\<exists>c'' e. cache_get c g n [(clock, [(t, Finish (mk_task g n) r)]), (clock', evs)] =
           Some (Inr (c'', \<lparr>page_n = n, page_body = (case r of Inl x \<Rightarrow> [] | Inr b \<Rightarrow> b),
                              page_expire = deadline e, page_cached = False\<rparr>))
           \<and> entries c'' g = Some e"
    using get_returns_after_fetch by blast
qed

theorem get_repeats_and_flag_witness:
  "is_hit (newCache\<lparr>entries := [''abc'' \<mapsto> \<lparr>deadline = 300, pages = [1 \<mapsto> [65]]\<rparr>]\<rparr>) ''abc'' 1
   \<and> cache_get (newCache\<lparr>entries := [''abc'' \<mapsto> \<lparr>deadline = 300, pages = [1 \<mapsto> [65]]\<rparr>]\<rparr>)
         ''abc'' 1 [(100, [])]
       = Some (Inr (newCache\<lparr>entries := [''abc'' \<mapsto> \<lparr>deadline = 300, pages = [1 \<mapsto> [65]]\<rparr>]\<rparr>,
                    \<lparr>page_n = 1, page_body = [65], page_expire = 300, page_cached = True\<rparr>))
   \<and> (page_cached \<lparr>page_n = 1, page_body = [65], page_expire = 300, page_cached = True\<rparr>
        \<longleftrightarrow> is_hit (newCache\<lparr>entries := [''abc'' \<mapsto> \<lparr>deadline = 300, pages = [1 \<mapsto> [65]]\<rparr>]\<rparr>) ''abc'' 1)
   \<and> chans_ok newCache
   \<and> \<not> is_hit newCache ''abc'' 1
   \<and> 0 < deadline (entry_or_new newCache 20 ''abc'')
   \<and> (\<exists>c'' e. cache_get newCache ''abc'' 1
                  [(10, [(20, Finish (mk_task ''abc'' 1) (Inr [65]))]), (30, [])] =
           Some (Inr (c'', \<lparr>page_n = 1, page_body = [65],
                              page_expire = deadline e, page_cached = False\<rparr>))
           \<and> entries c'' ''abc'' = Some e)"
proof -
  let ?c = "newCache\<lparr>entries := [''abc'' \<mapsto> \<lparr>deadline = 300, pages = [1 \<mapsto> [65]]\<rparr>]\<rparr>"
  let ?p = "\<lparr>page_n = 1, page_body = [65], page_expire = 300, page_cached = True\<rparr>"
  have h1: "is_hit ?c ''abc'' 1"
    by (simp add: is_hit_def invalid_def time_After_def zero_time_def)
  note t1 = get_repeats_and_flag [of ?c "''abc''" 1 "[(100, [])]" ?c ?p 20 10 "Inr [65]" 30 "[]"]
  from t1 [THEN conjunct1, THEN mp, OF h1] obtain e b where e: "entries ?c ''abc'' = Some e" "pages e 1 = Some b"
    and all: "\<forall>clock evs rest. cache_get ?c ''abc'' 1 ((clock, evs) # rest) =
               Some (Inr (?c, \<lparr>page_n = 1, page_body = b, page_expire = deadline e,
                                page_cached = True\<rparr>))"
    by (elim conjE exE) (rule that)
  have "e = \<lparr>deadline = 300, pages = [1 \<mapsto> [65]]\<rparr>"
    using e(1) by simp
  then have eb: "b = [65]" "deadline e = 300"
    using e(2) by simp_all
  have r1: "cache_get ?c ''abc'' 1 [(100, [])] = Some (Inr (?c, ?p))"
    using all [rule_format, of 100 "[]" "[]"] eb by simp
  have k1: "page_cached ?p \<longleftrightarrow> is_hit ?c ''abc'' 1"
    using t1 [THEN conjunct2, THEN conjunct1, THEN mp, OF r1] by (rule conjunct1)
  have h2: "chans_ok newCache"
    by (rule chans_ok_newCache)
  have h3: "\<not> is_hit newCache ''abc'' 1"
    by (simp add: is_hit_def newCache_def)
  have h4: "0 < deadline (entry_or_new newCache 20 ''abc'')"
    by (simp add: entry_or_new_def newCache_def newCacheEntry_def time_Add_def minute_def
          second_def)
  note t2 = get_repeats_and_flag [of newCache "''abc''" 1 "[]" newCache ?p 20 10 "Inr [65]" 30 "[]"]
  have r2: "\<exists>c'' e. cache_get newCache ''abc'' 1
                  [(10, [(20, Finish (mk_task ''abc'' 1) (Inr [65]))]), (30, [])] =
           Some (Inr (c'', \<lparr>page_n = 1, page_body = [65],
                              page_expire = deadline e, page_cached = False\<rparr>))
           \<and> entries c'' ''abc'' = Some e"
    using t2 [THEN conjunct2, THEN conjunct2, THEN mp, OF conjI [OF h2 conjI [OF h3 h4]]]
    by simp
  show ?thesis
    by (intro conjI h1 r1 k1 h2 h3 h4 r2)
qed


text \<open>
  Claim C3, on the code. The closure of \<open>get\<close> reads the clock only when the group has no
  entry, so it tests the deadline of an entry against the zero Time. A \<open>get\<close> of page 1
  issued 1000 ns after the deadline of the entry, before the sweeper has run, returns the
  stored page with \<open>cached\<close> set and starts no fetch: the four goroutines are those of
  the first call.
\<close>

theorem get_serves_expired_entry:
  "invalid \<lparr>deadline = 20 + 5 * minute, pages = [1 \<mapsto> [65]]\<rparr> (20 + 5 * minute + 1000)
   \<and> map_option (map page_cached \<circ> snd)
       (session newCache
          [Call ''abc'' 1 [(10, [(20, Finish (mk_task ''abc'' 1) (Inr [65]))]), (30, [])],
           Call ''abc'' 1 [(20 + 5 * minute + 1000, [])]])
     = Some [False, True]
   \<and> map_option (map page_expire \<circ> snd)
       (session newCache
          [Call ''abc'' 1 [(10, [(20, Finish (mk_task ''abc'' 1) (Inr [65]))]), (30, [])],
           Call ''abc'' 1 [(20 + 5 * minute + 1000, [])]])
     = Some [20 + 5 * minute, 20 + 5 * minute]
   \<and> map_option (length \<circ> spawned \<circ> fst)
       (session newCache
          [Call ''abc'' 1 [(10, [(20, Finish (mk_task ''abc'' 1) (Inr [65]))]), (30, [])],
           Call ''abc'' 1 [(20 + 5 * minute + 1000, [])]])
     = Some 4"
  by (simp add: run_defs)


subsection \<open>The handler\<close>

lemma ParseInt_syntax:
  assumes "\<forall>ds. s \<in> {ds, CHR ''+'' # ds, CHR ''-'' # ds} \<longrightarrow> ds = [] \<or> \<not> list_all is_digit ds"
  shows "ParseInt s = Inl ErrSyntax"
proof (cases s)
  case Nil
  then show ?thesis by (simp add: ParseInt_def)
next
  case (Cons ch r)
  show ?thesis
  proof (cases "ch = CHR ''+'' \<or> ch = CHR ''-''")
    case True
    then have "r = [] \<or> \<not> list_all is_digit r"
      using assms Cons by auto
    then show ?thesis
      using True Cons by (auto simp: ParseInt_def Let_def)
  next
    case False
    have "s = [] \<or> \<not> list_all is_digit s"
      using assms by auto
    then show ?thesis
      using False Cons by (auto simp: ParseInt_def Let_def)
  qed
qed

lemma handle_reject:
  assumes "mux_var vars ''q'' \<noteq> []" and "mux_var vars ''n'' \<noteq> []"
    and "ParseInt (mux_var vars ''n'') = Inl err"
  shows "origin_handle vars c sched = Some (Inr (c, ServerError err))"
  using assms by (simp add: origin_handle_def)

lemma handle_pass:
  assumes "mux_var vars ''q'' \<noteq> []" and "mux_var vars ''n'' \<noteq> []"
    and "ParseInt (mux_var vars ''n'') = Inr n"
  shows "origin_handle vars c sched =
           (case cache_get c (mux_var vars ''q'') n sched of
              None \<Rightarrow> None
            | Some (Inl e) \<Rightarrow> Some (Inl e)
            | Some (Inr (c', p)) \<Rightarrow>
                Some (Inr (c', Served (page_cached p) (page_expire p) (page_body p))))"
  using assms by (simp add: origin_handle_def)

text \<open>
  Claim C9, amended. A request whose page value is not empty and is not accepted by
  \<open>ParseInt\<close> (in particular one that is not an optional sign followed by decimal
  digits) is answered with status 500, and the cache is left as it is: no channel is
  registered and no fetch is started. A page value that \<open>ParseInt\<close> accepts is passed to
  \<open>get\<close> as it is, a negative one included.
\<close>

theorem handle_rejects_unparsable:
  "(mux_var vars ''q'' \<noteq> [] \<and> mux_var vars ''n'' \<noteq> []
      \<and> ParseInt (mux_var vars ''n'') = Inl err \<longrightarrow>
        origin_handle vars c sched = Some (Inr (c, ServerError err)))
   \<and> ((\<forall>ds. s \<in> {ds, CHR ''+'' # ds, CHR ''-'' # ds} \<longrightarrow> ds = [] \<or> \<not> list_all is_digit ds) \<longrightarrow>
        ParseInt s = Inl ErrSyntax)
   \<and> (mux_var vars ''q'' \<noteq> [] \<and> mux_var vars ''n'' \<noteq> []
      \<and> ParseInt (mux_var vars ''n'') = Inr n \<longrightarrow>
        origin_handle vars c sched =
           (case cache_get c (mux_var vars ''q'') n sched of
              None \<Rightarrow> None
            | Some (Inl e) \<Rightarrow> Some (Inl e)
            | Some (Inr (c', p)) \<Rightarrow>
                Some (Inr (c', Served (page_cached p) (page_expire p) (page_body p)))))"
proof (intro conjI impI)
  assume "mux_var vars ''q'' \<noteq> [] \<and> mux_var vars ''n'' \<noteq> []
      \<and> ParseInt (mux_var vars ''n'') = Inl err"
  then show "origin_handle vars c sched = Some (Inr (c, ServerError err))"
    by (simp add: handle_reject)
next
  assume "\<forall>ds. s \<in> {ds, CHR ''+'' # ds, CHR ''-'' # ds} \<longrightarrow> ds = [] \<or> \<not> list_all is_digit ds"
  then show "ParseInt s = Inl ErrSyntax"
    by (rule ParseInt_syntax)
next
  assume "mux_var vars ''q'' \<noteq> [] \<and> mux_var vars ''n'' \<noteq> []
      \<and> ParseInt (mux_var vars ''n'') = Inr n"
  then show "origin_handle vars c sched =
           (case cache_get c (mux_var vars ''q'') n sched of
              None \<Rightarrow> None
            | Some (Inl e) \<Rightarrow> Some (Inl e)
            | Some (Inr (c', p)) \<Rightarrow>
                Some (Inr (c', Served (page_cached p) (page_expire p) (page_body p))))"
    by (simp add: handle_pass)
qed

theorem handle_rejects_unparsable_witness:
  "mux_var [''q'' \<mapsto> ''abc'', ''n'' \<mapsto> ''1.5''] ''q'' \<noteq> []
   \<and> mux_var [''q'' \<mapsto> ''abc'', ''n'' \<mapsto> ''1.5''] ''n'' \<noteq> []
   \<and> ParseInt ''1.5'' = Inl ErrSyntax
   \<and> origin_handle [''q'' \<mapsto> ''abc'', ''n'' \<mapsto> ''1.5''] newCache [(10, [])]
       = Some (Inr (newCache, ServerError ErrSyntax))
   \<and> mux_var [''q'' \<mapsto> ''abc'', ''n'' \<mapsto> ''-1''] ''q'' \<noteq> []
   \<and> mux_var [''q'' \<mapsto> ''abc'', ''n'' \<mapsto> ''-1''] ''n'' \<noteq> []
   \<and> ParseInt (mux_var [''q'' \<mapsto> ''abc'', ''n'' \<mapsto> ''-1''] ''n'') = Inr (- 1)
   \<and> origin_handle [''q'' \<mapsto> ''abc'', ''n'' \<mapsto> ''-1''] newCache []
       = (case cache_get newCache ''abc'' (- 1) [] of
            None \<Rightarrow> None
          | Some (Inl e) \<Rightarrow> Some (Inl e)
          | Some (Inr (c', p)) \<Rightarrow>
              Some (Inr (c', Served (page_cached p) (page_expire p) (page_body p))))"
proof -
  let ?v1 = "[''q'' \<mapsto> ''abc'', ''n'' \<mapsto> ''1.5'']"
  let ?v2 = "[''q'' \<mapsto> ''abc'', ''n'' \<mapsto> ''-1'']"
  note t1 = handle_rejects_unparsable [of ?v1 ErrSyntax newCache "[(10, [])]" "''1.5''" 0]
  note t2 = handle_rejects_unparsable [of ?v2 ErrSyntax newCache "[]" "''1.5''" "- 1"]
  have q1: "mux_var ?v1 ''q'' \<noteq> []" and n1: "mux_var ?v1 ''n'' \<noteq> []"
    and n1': "mux_var ?v1 ''n'' = ''1.5''"
    by (simp_all add: mux_var_def)
  have q2: "mux_var ?v2 ''q'' \<noteq> []" and n2: "mux_var ?v2 ''n'' \<noteq> []"
    and q2': "mux_var ?v2 ''q'' = ''abc''"
    by (simp_all add: mux_var_def)
  have nd: "\<forall>ds. ''1.5'' \<in> {ds, CHR ''+'' # ds, CHR ''-'' # ds} \<longrightarrow>
      ds = [] \<or> \<not> list_all is_digit ds"
    by (auto simp: is_digit_def)
  have p1: "ParseInt ''1.5'' = Inl ErrSyntax"
    using t1 [THEN conjunct2, THEN conjunct1, THEN mp, OF nd] .
  have p1': "ParseInt (mux_var ?v1 ''n'') = Inl ErrSyntax"
    using p1 n1' by simp
  have r1: "origin_handle ?v1 newCache [(10, [])] = Some (Inr (newCache, ServerError ErrSyntax))"
    using t1 [THEN conjunct1, THEN mp, OF conjI [OF q1 conjI [OF n1 p1']]] .
  have p2: "ParseInt (mux_var ?v2 ''n'') = Inr (- 1)"
    by (simp add: mux_var_def ParseInt_def is_digit_def digits_value_def)
  have r2: "origin_handle ?v2 newCache []
       = (case cache_get newCache ''abc'' (- 1) [] of
            None \<Rightarrow> None
          | Some (Inl e) \<Rightarrow> Some (Inl e)
          | Some (Inr (c', p)) \<Rightarrow>
              Some (Inr (c', Served (page_cached p) (page_expire p) (page_body p))))"
    using t2 [THEN conjunct2, THEN conjunct2, THEN mp, OF conjI [OF q2 conjI [OF n2 p2]]]
    unfolding q2' .
  show ?thesis
    by (intro conjI q1 n1 p1 r1 q2 n2 p2 r2)
qed


text \<open>
  The page value \<open>-1\<close> is accepted: \<open>get\<close> is called with page \<open>-1\<close>, fetches of the
  pages \<open>-2\<close>, \<open>-1\<close>, \<open>0\<close> and \<open>1\<close> are started, and the body fetched for page \<open>-1\<close>
  is served.
\<close>

theorem negative_page_counterexample:
  "sint (- 1 :: go_int) < 0
   \<and> map_option (map_sum id snd)
       (origin_handle [''q'' \<mapsto> ''abc'', ''n'' \<mapsto> ''-1''] newCache
          [(10, [(20, Finish (mk_task ''abc'' (- 1)) (Inr [65]))]), (30, [])])
     = Some (Inr (Served False (20 + 5 * minute) [65]))
   \<and> map task_page (spawned (fst (get_query newCache 10 ''abc'' (- 1)))) = [- 2, - 1, 0, 1]"
  by (simp add: run_defs origin_handle_def mux_var_def ParseInt_def is_digit_def digits_value_def)

end
